theory Spec2Isabelle
  imports Main
begin

text \<open>
  The verse segmentation of the Quran text scraper: the numeral decoder
  \<open>arabicIndicToNumber\<close>, the two functions \<open>parseVersesFromContent\<close> (of the request
  handler and of the batch script) and the numeral encoder \<open>numberToArabicIndic\<close> of the
  pages, as functions on lists of UTF-16 code units, followed by the properties that
  the specification states about them.
\<close>

section \<open>Strings, white space and the numeral alphabets\<close>

text \<open>
  A JavaScript string is a sequence of UTF-16 code units. Every character the program
  names (the twenty numerals, the ASCII digits, the space) lies in the Basic Multilingual
  Plane, so it is one code unit, and \<open>split("")\<close>, the regular expressions (which have
  no \<open>u\<close> flag) and \<open>trim\<close> all work unit by unit. A string is modelled as the list of
  its code units, each unit as its number.
\<close>

type_synonym jsstring = "nat list"

text \<open>
  The class \<open>\s\<close> of a regular expression and the characters \<open>trim\<close> removes are the
  same set: WhiteSpace (TAB, VT, FF, SP, NBSP, ZWNBSP and the Unicode space separators)
  and LineTerminator (LF, CR, LS, PS).
\<close>

definition isWhiteSpace :: "nat \<Rightarrow> bool" where
  "isWhiteSpace c =
     (c = 0x09 \<or> c = 0x0A \<or> c = 0x0B \<or> c = 0x0C \<or> c = 0x0D \<or> c = 0x20 \<or> c = 0xA0 \<or>
      c = 0x1680 \<or> (0x2000 \<le> c \<and> c \<le> 0x200A) \<or> c = 0x2028 \<or> c = 0x2029 \<or>
      c = 0x202F \<or> c = 0x205F \<or> c = 0x3000 \<or> c = 0xFEFF)"

text \<open>\<open>String.prototype.trim\<close>.\<close>

definition trim :: "jsstring \<Rightarrow> jsstring" where
  "trim s = rev (dropWhile isWhiteSpace (rev (dropWhile isWhiteSpace s)))"

text \<open>
  The character class \<open>[U+0660-U+0669 U+06F0-U+06F9]\<close> that the regular expressions
  of \<open>parseVersesFromContent\<close> use: the Arabic-Indic and the Extended Arabic-Indic
  digits.
\<close>

definition isNumeral :: "nat \<Rightarrow> bool" where
  "isNumeral c = ((0x660 \<le> c \<and> c \<le> 0x669) \<or> (0x6F0 \<le> c \<and> c \<le> 0x6F9))"


section \<open>Numbers\<close>

text \<open>
  A JavaScript Number is an IEEE 754 double. The values this program computes are
  integers, NaN and the infinities; the model has exactly those (and identifies \<open>-0\<close>
  with \<open>0\<close>, as \<open>===\<close> does). A mathematical integer becomes a Number by rounding to
  the nearest double, ties to the even significand: integers of magnitude up to \<open>2^53\<close>
  are kept, larger ones are rounded to 53 significant bits, and what rounds to \<open>2^1024\<close>
  or more is infinite. \<open>Finite v\<close> stands for the double of value \<open>v\<close>; \<open>toNumber\<close>
  returns only integers that a double holds.
\<close>

datatype number = NaN | Finite int | PosInfinity | NegInfinity

fun bitLength :: "nat \<Rightarrow> nat" where
  "bitLength n = (if n = 0 then 0 else Suc (bitLength (n div 2)))"

declare bitLength.simps [simp del]

definition roundToDouble :: "nat \<Rightarrow> nat option" where
  "roundToDouble a =
     (if a < 2 ^ 53 then Some a
      else
        let e = bitLength a - 53;
            q = a div 2 ^ e;
            r = a mod 2 ^ e;
            h = 2 ^ (e - 1);
            q' = (if h < r \<or> (r = h \<and> odd q) then q + 1 else q);
            v = q' * 2 ^ e
        in if v < 2 ^ 1024 then Some v else None)"

definition toNumber :: "int \<Rightarrow> number" where
  "toNumber v =
     (case roundToDouble (nat \<bar>v\<bar>) of
        Some m \<Rightarrow> Finite (if v < 0 then - int m else int m)
      | None \<Rightarrow> if v < 0 then NegInfinity else PosInfinity)"


section \<open>The numeral decoder\<close>

text \<open>
  \<open>parseInt(string)\<close> with no radix: leading white space is skipped, a sign is read,
  a prefix \<open>0x\<close> or \<open>0X\<close> selects radix 16 (otherwise 10), the longest prefix of digits
  of that radix is taken, and the result is NaN when that prefix is empty. (For more
  than 20 significant digits ECMAScript lets an implementation round the digits first;
  the model rounds the exact value.)
\<close>

definition digitValue :: "nat \<Rightarrow> nat \<Rightarrow> nat option" where
  "digitValue R c =
     (if 0x30 \<le> c \<and> c \<le> 0x39 then Some (c - 0x30)
      else if R = 16 \<and> 0x61 \<le> c \<and> c \<le> 0x66 then Some (c - 0x61 + 10)
      else if R = 16 \<and> 0x41 \<le> c \<and> c \<le> 0x46 then Some (c - 0x41 + 10)
      else None)"

definition mathInt :: "nat \<Rightarrow> jsstring \<Rightarrow> nat" where
  "mathInt R Z = foldl (\<lambda>acc c. acc * R + the (digitValue R c)) 0 Z"

definition parseInt :: "jsstring \<Rightarrow> number" where
  "parseInt inputString =
     (let S = dropWhile isWhiteSpace inputString;
          negative = (case S of [] \<Rightarrow> False | c # _ \<Rightarrow> c = 0x2D);
          S1 = (case S of [] \<Rightarrow> [] | c # cs \<Rightarrow> if c = 0x2B \<or> c = 0x2D then cs else S);
          hex = (case S1 of a # b # _ \<Rightarrow> a = 0x30 \<and> (b = 0x78 \<or> b = 0x58) | _ \<Rightarrow> False);
          R = (if hex then 16 else 10);
          S2 = (if hex then drop 2 S1 else S1);
          Z = takeWhile (\<lambda>c. digitValue R c \<noteq> None) S2
      in if Z = [] then NaN
         else toNumber (if negative then - int (mathInt R Z) else int (mathInt R Z)))"

text \<open>
  The table \<open>arabicIndicDigits\<close> of \<open>arabicIndicToNumber\<close>: twenty keys, each mapped
  to the one-character string of its ASCII digit.
\<close>

definition arabicIndicDigits :: "nat \<rightharpoonup> jsstring" where
  "arabicIndicDigits = map_of
     [(0x660, [0x30]), (0x661, [0x31]), (0x662, [0x32]), (0x663, [0x33]), (0x664, [0x34]),
      (0x665, [0x35]), (0x666, [0x36]), (0x667, [0x37]), (0x668, [0x38]), (0x669, [0x39]),
      (0x6F0, [0x30]), (0x6F1, [0x31]), (0x6F2, [0x32]), (0x6F3, [0x33]), (0x6F4, [0x34]),
      (0x6F5, [0x35]), (0x6F6, [0x36]), (0x6F7, [0x37]), (0x6F8, [0x38]), (0x6F9, [0x39])]"

text \<open>
  \<open>parseInt(str.split("").map((c) => arabicIndicDigits[c] ?? c).join(""))\<close>
\<close>

definition arabicIndicToNumber :: "jsstring \<Rightarrow> number" where
  "arabicIndicToNumber str =
     parseInt (concat (map (\<lambda>c. case arabicIndicDigits c of Some d \<Rightarrow> d | None \<Rightarrow> [c]) str))"


section \<open>The two segmenters\<close>

text \<open>
  The repository has two functions \<open>parseVersesFromContent\<close>. The one of the request
  handler splits at \<open>/\s([numerals]+)(?:\s|$)/\<close>: the marker stands between white
  space (or before the end of the text). The one of the batch script splits at
  \<open>/([numerals]+)(?:\s|$)/\<close>: the marker ends a verse, with nothing asked of its left
  side. They are told apart by a convention.
\<close>

datatype convention = MID_STREAM | END_OF_UNIT

record verse =
  number :: nat
  text' :: jsstring

text \<open>The group \<open>(?:\s|$)\<close>, without the \<open>m\<close> flag: it returns the input left over.\<close>

definition boundary :: "jsstring \<Rightarrow> jsstring option" where
  "boundary s = (case s of [] \<Rightarrow> Some [] | c # cs \<Rightarrow> if isWhiteSpace c then Some cs else None)"

text \<open>
  \<open>([numerals]+)(?:\s|$)\<close> matched at the start of the input, as a backtracking
  matcher does it: the greedy \<open>+\<close> first tries to take one more numeral, and only when
  that fails tries the boundary after the numerals taken so far. The result is the
  capture and the input left over.
\<close>

fun numerals :: "jsstring \<Rightarrow> (jsstring \<times> jsstring) option" where
  "numerals [] = None"
| "numerals (c # cs) =
     (if isNumeral c then
        (case numerals cs of
           Some (cap, rest) \<Rightarrow> Some (c # cap, rest)
         | None \<Rightarrow> (case boundary cs of Some rest \<Rightarrow> Some ([c], rest) | None \<Rightarrow> None))
      else None)"

text \<open>
  One match attempt of \<open>split\<close>, which runs the expression sticky: the match has to
  start at the current position.
\<close>

definition exec :: "convention \<Rightarrow> jsstring \<Rightarrow> (jsstring \<times> jsstring) option" where
  "exec conv s =
     (case conv of
        MID_STREAM \<Rightarrow> (case s of [] \<Rightarrow> None | c # cs \<Rightarrow> if isWhiteSpace c then numerals cs else None)
      | END_OF_UNIT \<Rightarrow> numerals s)"

text \<open>
  \<open>String.prototype.split\<close> with a regular expression that has one capture group.
  \<open>T\<close> is the text between the end \<open>p\<close> of the last match and the position \<open>q\<close>, \<open>s\<close>
  the input from \<open>q\<close> on. Where the expression does not match at \<open>q\<close> the position
  advances by one unit; where it matches, the text before the match and the capture are
  pushed and the scan goes on after the match. At the end of the input the text left is
  pushed. (Both expressions consume at least one numeral, so the rule of \<open>split\<close> for a
  match that ends at \<open>p\<close> never applies.) The loop is a \<open>while\<close>; not returning is the
  value \<open>None\<close>.
\<close>

partial_function (option) splitLoop :: "convention \<Rightarrow> jsstring \<Rightarrow> jsstring \<Rightarrow> jsstring list option" where
  "splitLoop conv T s =
     (case s of
        [] \<Rightarrow> Some [T]
      | c # cs \<Rightarrow>
          (case exec conv s of
             None \<Rightarrow> splitLoop conv (T @ [c]) cs
           | Some (cap, rest) \<Rightarrow> Option.bind (splitLoop conv [] rest) (\<lambda>A. Some (T # cap # A))))"

declare splitLoop.simps [code]

definition split :: "convention \<Rightarrow> jsstring \<Rightarrow> jsstring list option" where
  "split conv content = splitLoop conv [] content"

text \<open>\<open>/^[numerals]+$/.test(part)\<close>\<close>

definition isVerseNum :: "jsstring \<Rightarrow> bool" where
  "isVerseNum part = (part \<noteq> [] \<and> list_all isNumeral part)"

text \<open>
  The variables of the loop. \<open>expectedVerseNum\<close> starts at 1 and grows by one for each
  accepted marker, so it stays below the length of the content, far below \<open>2^53\<close>: it is
  a natural number, and \<open>++\<close> is exact.
\<close>

record state =
  verses :: "verse list"
  currentText :: jsstring
  expectedVerseNum :: nat

definition initial :: state where
  "initial = \<lparr>verses = [], currentText = [], expectedVerseNum = 1\<rparr>"

text \<open>
  The body of the \<open>for\<close> loop. The handler appends a rejected marker as
  \<open>" " + part\<close> and other text as \<open>(currentText ? " " : "") + part\<close>; the script appends
  both as \<open>part\<close>.
\<close>

definition step :: "convention \<Rightarrow> state \<Rightarrow> jsstring \<Rightarrow> state" where
  "step conv st part =
     (if isVerseNum part then
        if arabicIndicToNumber part = Finite (int (expectedVerseNum st)) then
          let verseText = trim (currentText st)
          in \<lparr>verses =
                (if verseText \<noteq> []
                 then verses st @ [\<lparr>number = expectedVerseNum st, text' = verseText\<rparr>]
                 else verses st),
              currentText = [],
              expectedVerseNum = expectedVerseNum st + 1\<rparr>
        else
          st\<lparr>currentText :=
               (case conv of
                  MID_STREAM \<Rightarrow> currentText st @ [0x20] @ part
                | END_OF_UNIT \<Rightarrow> currentText st @ part)\<rparr>
      else
        st\<lparr>currentText :=
             (case conv of
                MID_STREAM \<Rightarrow> currentText st @ (if currentText st \<noteq> [] then [0x20] else []) @ part
              | END_OF_UNIT \<Rightarrow> currentText st @ part)\<rparr>)"

text \<open>After the loop: the text left, when it is not blank, is the last verse.\<close>

definition finish :: "state \<Rightarrow> verse list" where
  "finish st =
     (let remainingText = trim (currentText st)
      in if remainingText \<noteq> []
         then verses st @ [\<lparr>number = expectedVerseNum st, text' = remainingText\<rparr>]
         else verses st)"

definition parseVersesFromContent :: "convention \<Rightarrow> jsstring \<Rightarrow> verse list option" where
  "parseVersesFromContent conv content =
     Option.bind (split conv content) (\<lambda>parts. Some (finish (foldl (step conv) initial parts)))"


section \<open>The numeral encoder\<close>

text \<open>The decimal digits of a natural number, as ASCII.\<close>

fun decimal :: "nat \<Rightarrow> jsstring" where
  "decimal n = (if n < 10 then [0x30 + n] else decimal (n div 10) @ [0x30 + n mod 10])"

declare decimal.simps [simp del]

text \<open>
  \<open>String(num)\<close> for a positive integer \<open>x\<close> takes integers \<open>n\<close>, \<open>k\<close>, \<open>s\<close> with
  \<open>10^(k-1) \<le> s < 10^k\<close> such that \<open>s * 10^(n-k)\<close> is a number that rounds to \<open>x\<close>, with
  \<open>k\<close> as small as possible (and \<open>s\<close> as close to \<open>x\<close> as possible, the even one of two).
  With \<open>d\<close> the number of decimal digits of \<open>x\<close>, either \<open>10^d\<close> rounds to \<open>x\<close>, and then
  \<open>n = d + 1\<close> and \<open>k = s = 1\<close>; or \<open>n = d\<close>, and for each \<open>k\<close> only the two \<open>s\<close> around
  \<open>x / 10^(d-k)\<close> can do.
\<close>

definition candidates :: "nat \<Rightarrow> nat \<Rightarrow> nat \<Rightarrow> nat list" where
  "candidates x d k =
     filter (\<lambda>s. 10 ^ (k - 1) \<le> s \<and> s < 10 ^ k \<and> toNumber (int (s * 10 ^ (d - k))) = Finite (int x))
       [x div 10 ^ (d - k), x div 10 ^ (d - k) + 1]"

definition closest :: "nat \<Rightarrow> nat \<Rightarrow> nat \<Rightarrow> nat list \<Rightarrow> nat" where
  "closest x d k ss =
     (case ss of
        [s] \<Rightarrow> s
      | [s0, s1] \<Rightarrow>
          (let below = x - s0 * 10 ^ (d - k); above = s1 * 10 ^ (d - k) - x
           in if below < above \<or> (below = above \<and> even s0) then s0 else s1)
      | _ \<Rightarrow> x)"

definition shortestDigits :: "nat \<Rightarrow> nat \<times> nat \<times> nat" where
  "shortestDigits x =
     (let d = length (decimal x)
      in if toNumber (int (10 ^ d)) = Finite (int x) then (d + 1, 1, 1)
         else (case find (\<lambda>k. candidates x d k \<noteq> []) [1..<d] of
                 Some k \<Rightarrow> (d, k, closest x d k (candidates x d k))
               | None \<Rightarrow> (d, d, x)))"

definition positiveToString :: "nat \<Rightarrow> jsstring" where
  "positiveToString x =
     (case shortestDigits x of
        (n, k, s) \<Rightarrow>
          if n \<le> 21 then decimal s @ replicate (n - k) 0x30
          else (case decimal s of
                  [] \<Rightarrow> []
                | c # cs \<Rightarrow> (if cs = [] then [c] else c # 0x2E # cs) @ [0x65, 0x2B] @ decimal (n - 1)))"

text \<open>\<open>String(num)\<close>: \<open>"NaN"\<close>, \<open>"Infinity"\<close>, \<open>"-Infinity"\<close>, \<open>"0"\<close>, or the digits, after a
  \<open>"-"\<close> for a negative number.\<close>

definition numberToString :: "number \<Rightarrow> jsstring" where
  "numberToString num =
     (case num of
        NaN \<Rightarrow> [0x4E, 0x61, 0x4E]
      | PosInfinity \<Rightarrow> [0x49, 0x6E, 0x66, 0x69, 0x6E, 0x69, 0x74, 0x79]
      | NegInfinity \<Rightarrow> [0x2D, 0x49, 0x6E, 0x66, 0x69, 0x6E, 0x69, 0x74, 0x79]
      | Finite v \<Rightarrow>
          if v = 0 then [0x30]
          else if v < 0 then 0x2D # positiveToString (nat (- v))
          else positiveToString (nat v))"

text \<open>
  The array \<open>digits\<close> of \<open>numberToArabicIndic\<close>, and \<open>digits[i]\<close> for a Number \<open>i\<close>:
  \<open>undefined\<close> unless \<open>i\<close> is one of the indices 0 to 9.
\<close>

definition digits :: "jsstring list" where
  "digits = [[0x660], [0x661], [0x662], [0x663], [0x664], [0x665], [0x666], [0x667], [0x668], [0x669]]"

definition digitsAt :: "number \<Rightarrow> jsstring option" where
  "digitsAt i =
     (case i of
        Finite v \<Rightarrow> if 0 \<le> v \<and> v < int (length digits) then Some (digits ! nat v) else None
      | _ \<Rightarrow> None)"

text \<open>
  \<open>String(num).split("").map((d) => digits[parseInt(d)]).join("")\<close>, where \<open>join\<close>
  writes \<open>undefined\<close> as the empty string.
\<close>

definition numberToArabicIndic :: "number \<Rightarrow> jsstring" where
  "numberToArabicIndic num =
     concat (map (\<lambda>d. case digitsAt (parseInt [d]) of Some g \<Rightarrow> g | None \<Rightarrow> [])
       (numberToString num))"

section \<open>Predicates on a run of the loop\<close>

text \<open>
  What the loop keeps true: the expected number is at least 1, the numbers pushed so far
  increase strictly, and each of them is at least 1 and below the expected number.
\<close>

definition numbered :: "state \<Rightarrow> bool" where
  "numbered st =
     (1 \<le> expectedVerseNum st \<and> sorted_wrt (<) (map number (verses st)) \<and>
      list_all (\<lambda>v. 1 \<le> number v \<and> number v < expectedVerseNum st) (verses st))"

text \<open>
  An accepted marker closes an empty unit when the text gathered before it is blank: the
  loop then pushes nothing and still advances the expected number. \<open>dropsNothing\<close>
  says that this happens at no part of a run from the given state.
\<close>

definition closesEmpty :: "state \<Rightarrow> jsstring \<Rightarrow> bool" where
  "closesEmpty st part =
     (isVerseNum part \<and> arabicIndicToNumber part = Finite (int (expectedVerseNum st)) \<and>
      trim (currentText st) = [])"

fun dropsNothing :: "convention \<Rightarrow> state \<Rightarrow> jsstring list \<Rightarrow> bool" where
  "dropsNothing conv st [] = True"
| "dropsNothing conv st (part # parts) =
     (\<not> closesEmpty st part \<and> dropsNothing conv (step conv st part) parts)"

text \<open>The numbers pushed so far are \<open>1, 2, ...\<close> up to the expected number.\<close>

definition gapFree :: "state \<Rightarrow> bool" where
  "gapFree st = (map number (verses st) = [1..<expectedVerseNum st])"

section \<open>The specification's reading of a numeral string\<close>

text \<open>
  The specification describes the decoded value in its own words: each character is
  mapped to its digit value 0 to 9 in its alphabet, and the digits are composed from left
  to right as a base-10 number, the leftmost digit the most significant.
\<close>

definition numeralDigit :: "nat \<Rightarrow> nat" where
  "numeralDigit c = (if c \<le> 0x669 then c - 0x660 else c - 0x6F0)"

definition numeralValue :: "jsstring \<Rightarrow> nat" where
  "numeralValue s = foldl (\<lambda>v c. 10 * v + numeralDigit c) 0 s"

text \<open>The ASCII digits, the digits of radix 10 for \<open>parseInt\<close>.\<close>

definition asciiDigit :: "nat \<Rightarrow> bool" where
  "asciiDigit c = (0x30 \<le> c \<and> c \<le> 0x39)"

section \<open>The reconstruction of a unit list\<close>

text \<open>
  Modelled from the spec: the reconstruction of the idempotence property ("unit texts
  rejoined with the original marker convention reinserted"), which the repository does
  not implement. Each unit text is followed by a space and its marker, written by
  \<open>numberToArabicIndic\<close>, and the units are joined by a space:
  \<open>units.map((v) => v.text + " " + numberToArabicIndic(v.number)).join(" ")\<close>.
\<close>

definition marked :: "verse \<Rightarrow> jsstring" where
  "marked v = text' v @ [0x20] @ numberToArabicIndic (Finite (int (number v)))"

fun reconstruct :: "verse list \<Rightarrow> jsstring" where
  "reconstruct [] = []"
| "reconstruct [v] = marked v"
| "reconstruct (v # w # vs) = marked v @ [0x20] @ reconstruct (w # vs)"

text \<open>A text that \<open>trim\<close> leaves as it is, and that is not empty.\<close>

definition trimmed :: "jsstring \<Rightarrow> bool" where
  "trimmed s = (s \<noteq> [] \<and> \<not> isWhiteSpace (hd s) \<and> \<not> isWhiteSpace (last s))"

text \<open>
  The parts that \<open>split\<close> finds in the reconstruction of a list of units with trimmed
  texts without numerals: text and marker of each unit in turn (in the end-of-unit
  convention the text keeps the space before the marker), and the empty text after the
  last marker.
\<close>

definition reconstructedParts :: "convention \<Rightarrow> verse list \<Rightarrow> jsstring list" where
  "reconstructedParts conv units =
     concat (map (\<lambda>v. [text' v @ (case conv of MID_STREAM \<Rightarrow> [] | END_OF_UNIT \<Rightarrow> [0x20]),
                         numberToArabicIndic (Finite (int (number v)))]) units) @ [[]]"

text \<open>
  Units numbered \<open>k\<close>, \<open>k + 1\<close>, ... without a gap, below \<open>2^53\<close>, whose texts are trimmed
  and have no numeral.
\<close>

fun plainUnits :: "nat \<Rightarrow> verse list \<Rightarrow> bool" where
  "plainUnits k [] = True"
| "plainUnits k (v # vs) =
     (number v = k \<and> k < 2 ^ 53 \<and> trimmed (text' v) \<and>
      list_all (\<lambda>c. \<not> isNumeral c) (text' v) \<and> plainUnits (Suc k) vs)"

text \<open>All texts pushed so far are trimmed.\<close>

definition trimmedTexts :: "state \<Rightarrow> bool" where
  "trimmedTexts st = list_all (\<lambda>v. trimmed (text' v)) (verses st)"


section \<open>Properties\<close>

subsection \<open>The scan returns\<close>

lemma splitLoop_Nil: "splitLoop conv T [] = Some [T]"
  by (simp add: splitLoop.simps)

lemma numerals_shorter: "numerals s = Some (cap, rest) \<Longrightarrow> length rest < length s"
proof (induction s arbitrary: cap rest)
  case Nil
  then show ?case by simp
next
  case (Cons c cs)
  show ?case
  proof (cases "numerals cs")
    case None
    with Cons.prems show ?thesis
      by (auto simp: boundary_def split: if_splits list.splits option.splits)
  next
    case (Some r)
    obtain cap' rest' where r: "r = (cap', rest')" by (cases r)
    with Some Cons.prems have "rest = rest'" by (auto split: if_splits)
    with Cons.IH [of cap' rest'] Some r show ?thesis by simp
  qed
qed

lemma exec_shorter: "exec conv s = Some (cap, rest) \<Longrightarrow> length rest < length s"
  by (cases conv; cases s)
     (auto simp: exec_def simp del: numerals.simps dest!: numerals_shorter split: if_splits)

lemma splitLoop_Cons:
  "splitLoop conv T (c # cs) =
     (case exec conv (c # cs) of
        None \<Rightarrow> splitLoop conv (T @ [c]) cs
      | Some (cap, rest) \<Rightarrow> Option.bind (splitLoop conv [] rest) (\<lambda>A. Some (T # cap # A)))"
  by (subst splitLoop.simps) simp

lemma splitLoop_match:
  assumes "exec conv s = Some (cap, rest)"
  shows "splitLoop conv T s = Option.bind (splitLoop conv [] rest) (\<lambda>A. Some (T # cap # A))"
proof (cases s)
  case Nil
  with assms show ?thesis by (cases conv) (simp_all add: exec_def)
next
  case (Cons c cs)
  with assms show ?thesis by (simp add: splitLoop_Cons)
qed

lemma splitLoop_returns: "\<exists>A. splitLoop conv T s = Some A"
proof (induction "length s" arbitrary: s T rule: less_induct)
  case less
  show ?case
  proof (cases s)
    case Nil
    then show ?thesis by (simp add: splitLoop_Nil)
  next
    case (Cons c cs)
    show ?thesis
    proof (cases "exec conv s")
      case None
      from less [of cs "T @ [c]"] Cons obtain A where "splitLoop conv (T @ [c]) cs = Some A"
        by auto
      with None Cons show ?thesis by (simp add: splitLoop_Cons)
    next
      case (Some r)
      obtain cap rest where r: "r = (cap, rest)" by (cases r)
      from Some r have "length rest < length s" by (auto dest: exec_shorter)
      from less [OF this, of "[]"] obtain A where "splitLoop conv [] rest = Some A" by auto
      with Some r Cons show ?thesis by (simp add: splitLoop_Cons)
    qed
  qed
qed

lemma split_returns: "\<exists>parts. split conv content = Some parts"
  by (simp add: split_def splitLoop_returns)

text \<open>
  Claim C7: for every input string, in either convention, the segmenter returns a unit
  list (which may be empty); it never fails. The only loop that is not bounded by its
  own counter is the scan of \<open>split\<close>, and each match it finds consumes input.
\<close>

theorem parseVersesFromContent_returns:
  "\<exists>units. parseVersesFromContent conv content = Some units"
proof -
  obtain parts where "split conv content = Some parts"
    using split_returns by blast
  then show ?thesis by (simp add: parseVersesFromContent_def)
qed


subsection \<open>Evaluating the segmenter on a given text\<close>

lemmas segmenter_eval =
  parseVersesFromContent_def split_def splitLoop_Cons splitLoop_Nil exec_def boundary_def
  isWhiteSpace_def isNumeral_def step_def finish_def initial_def isVerseNum_def trim_def
  arabicIndicToNumber_def arabicIndicDigits_def parseInt_def digitValue_def mathInt_def
  toNumber_def roundToDouble_def Let_def

text \<open>
  Claim C3: in the mid-stream convention, on the content of the specification's example
  (two words, the marker for 10, one word, the marker for 2, separated by single spaces),
  \<open>split\<close> finds five parts: the two words, the marker 10, the third word, the marker 2
  and the empty text after it. The markers decode to 10 and to 2; neither is the expected
  number, which is 1 before and after each part, so each is appended to the buffer as
  text and no verse is pushed in the loop. The result is one unit, numbered 1, whose text
  is the whole content.
\<close>

theorem non_sequential_markers_absorbed:
  "split MID_STREAM
     [0x627, 0x644, 0x653, 0x631, 0x6DA, 0x20, 0x62A, 0x650, 0x644, 0x6E1, 0x643, 0x64E, 0x20,
      0x661, 0x660, 0x20, 0x621, 0x64E, 0x627, 0x64A, 0x64E, 0x670, 0x62A, 0x64F, 0x20, 0x662]
     = Some [[0x627, 0x644, 0x653, 0x631, 0x6DA, 0x20, 0x62A, 0x650, 0x644, 0x6E1, 0x643, 0x64E],
             [0x661, 0x660],
             [0x621, 0x64E, 0x627, 0x64A, 0x64E, 0x670, 0x62A, 0x64F],
             [0x662],
             []] \<and>
   isVerseNum [0x661, 0x660] \<and> arabicIndicToNumber [0x661, 0x660] = Finite 10 \<and>
   isVerseNum [0x662] \<and> arabicIndicToNumber [0x662] = Finite 2 \<and>
   foldl (step MID_STREAM) initial
     [[0x627, 0x644, 0x653, 0x631, 0x6DA, 0x20, 0x62A, 0x650, 0x644, 0x6E1, 0x643, 0x64E]]
     = \<lparr>verses = [],
        currentText = [0x627, 0x644, 0x653, 0x631, 0x6DA, 0x20, 0x62A, 0x650, 0x644, 0x6E1, 0x643, 0x64E],
        expectedVerseNum = 1\<rparr> \<and>
   foldl (step MID_STREAM) initial
     [[0x627, 0x644, 0x653, 0x631, 0x6DA, 0x20, 0x62A, 0x650, 0x644, 0x6E1, 0x643, 0x64E],
      [0x661, 0x660]]
     = \<lparr>verses = [],
        currentText = [0x627, 0x644, 0x653, 0x631, 0x6DA, 0x20, 0x62A, 0x650, 0x644, 0x6E1, 0x643, 0x64E,
                       0x20, 0x661, 0x660],
        expectedVerseNum = 1\<rparr> \<and>
   foldl (step MID_STREAM) initial
     [[0x627, 0x644, 0x653, 0x631, 0x6DA, 0x20, 0x62A, 0x650, 0x644, 0x6E1, 0x643, 0x64E],
      [0x661, 0x660],
      [0x621, 0x64E, 0x627, 0x64A, 0x64E, 0x670, 0x62A, 0x64F]]
     = \<lparr>verses = [],
        currentText = [0x627, 0x644, 0x653, 0x631, 0x6DA, 0x20, 0x62A, 0x650, 0x644, 0x6E1, 0x643, 0x64E,
                       0x20, 0x661, 0x660, 0x20, 0x621, 0x64E, 0x627, 0x64A, 0x64E, 0x670, 0x62A, 0x64F],
        expectedVerseNum = 1\<rparr> \<and>
   foldl (step MID_STREAM) initial
     [[0x627, 0x644, 0x653, 0x631, 0x6DA, 0x20, 0x62A, 0x650, 0x644, 0x6E1, 0x643, 0x64E],
      [0x661, 0x660],
      [0x621, 0x64E, 0x627, 0x64A, 0x64E, 0x670, 0x62A, 0x64F],
      [0x662]]
     = \<lparr>verses = [],
        currentText = [0x627, 0x644, 0x653, 0x631, 0x6DA, 0x20, 0x62A, 0x650, 0x644, 0x6E1, 0x643, 0x64E,
                       0x20, 0x661, 0x660, 0x20, 0x621, 0x64E, 0x627, 0x64A, 0x64E, 0x670, 0x62A, 0x64F,
                       0x20, 0x662],
        expectedVerseNum = 1\<rparr> \<and>
   foldl (step MID_STREAM) initial
     [[0x627, 0x644, 0x653, 0x631, 0x6DA, 0x20, 0x62A, 0x650, 0x644, 0x6E1, 0x643, 0x64E],
      [0x661, 0x660],
      [0x621, 0x64E, 0x627, 0x64A, 0x64E, 0x670, 0x62A, 0x64F],
      [0x662],
      []]
     = \<lparr>verses = [],
        currentText = [0x627, 0x644, 0x653, 0x631, 0x6DA, 0x20, 0x62A, 0x650, 0x644, 0x6E1, 0x643, 0x64E,
                       0x20, 0x661, 0x660, 0x20, 0x621, 0x64E, 0x627, 0x64A, 0x64E, 0x670, 0x62A, 0x64F,
                       0x20, 0x662, 0x20],
        expectedVerseNum = 1\<rparr> \<and>
   parseVersesFromContent MID_STREAM
     [0x627, 0x644, 0x653, 0x631, 0x6DA, 0x20, 0x62A, 0x650, 0x644, 0x6E1, 0x643, 0x64E, 0x20,
      0x661, 0x660, 0x20, 0x621, 0x64E, 0x627, 0x64A, 0x64E, 0x670, 0x62A, 0x64F, 0x20, 0x662]
   = Some [\<lparr>number = 1, text' =
     [0x627, 0x644, 0x653, 0x631, 0x6DA, 0x20, 0x62A, 0x650, 0x644, 0x6E1, 0x643, 0x64E, 0x20,
      0x661, 0x660, 0x20, 0x621, 0x64E, 0x627, 0x64A, 0x64E, 0x670, 0x62A, 0x64F, 0x20, 0x662]\<rparr>]"
  by (simp add: segmenter_eval)


subsection \<open>The sequence numbers\<close>

lemma numbered_initial: "numbered initial"
  by (simp add: numbered_def initial_def)

lemma numbered_step: "numbered st \<Longrightarrow> numbered (step conv st part)"
  by (cases conv)
     (auto simp: numbered_def step_def Let_def sorted_wrt_append list_all_iff)

lemma numbered_foldl: "numbered st \<Longrightarrow> numbered (foldl (step conv) st parts)"
  by (induction parts arbitrary: st) (simp_all add: numbered_step)

lemma numbered_finish:
  "numbered st \<Longrightarrow>
     sorted_wrt (<) (map number (finish st)) \<and> list_all (\<lambda>v. 1 \<le> number v) (finish st)"
  by (auto simp: numbered_def finish_def Let_def sorted_wrt_append list_all_iff)

lemma numbered_result:
  assumes "split conv content = Some parts"
  shows "parseVersesFromContent conv content = Some (finish (foldl (step conv) initial parts))"
    and "numbered (foldl (step conv) initial parts)"
  using assms by (simp_all add: parseVersesFromContent_def numbered_foldl numbered_initial)

text \<open>
  Claim C10: for every input string, in either convention, the sequence numbers of the
  returned units increase strictly, and each is at least 1.
\<close>

theorem sequence_numbers_increase:
  "\<exists>units. parseVersesFromContent conv content = Some units \<and>
     sorted_wrt (<) (map number units) \<and> (\<forall>v \<in> set units. 1 \<le> number v)"
proof -
  obtain parts where parts: "split conv content = Some parts"
    using split_returns by blast
  from numbered_finish [OF numbered_result(2) [OF parts]] numbered_result(1) [OF parts]
  show ?thesis by (simp add: list_all_iff)
qed

theorem sequence_numbers_increase_witness:
  "parseVersesFromContent END_OF_UNIT [0x61, 0x20, 0x661, 0x20, 0x62, 0x20, 0x663, 0x20, 0x63]
     = Some [\<lparr>number = 1, text' = [0x61]\<rparr>, \<lparr>number = 2, text' = [0x62, 0x20, 0x663, 0x63]\<rparr>] \<and>
   sorted_wrt (<) (map number
     [\<lparr>number = 1, text' = [0x61]\<rparr>, \<lparr>number = 2, text' = [0x62, 0x20, 0x663, 0x63]\<rparr>]) \<and>
   list_all (\<lambda>v. 1 \<le> number v)
     [\<lparr>number = 1, text' = [0x61]\<rparr>, \<lparr>number = 2, text' = [0x62, 0x20, 0x663, 0x63]\<rparr>]"
  using sequence_numbers_increase
    [of END_OF_UNIT "[0x61, 0x20, 0x661, 0x20, 0x62, 0x20, 0x663, 0x20, 0x63]"]
  by (simp add: segmenter_eval)

lemma gapFree_initial: "gapFree initial"
  by (simp add: gapFree_def initial_def)

lemma gapFree_step:
  "gapFree st \<Longrightarrow> \<not> closesEmpty st part \<Longrightarrow> 0 < expectedVerseNum st \<Longrightarrow> gapFree (step conv st part)"
  by (cases conv) (auto simp: gapFree_def closesEmpty_def step_def Let_def)

lemma expected_step: "0 < expectedVerseNum st \<Longrightarrow> 0 < expectedVerseNum (step conv st part)"
  by (cases conv) (auto simp: step_def Let_def)

lemma gapFree_foldl:
  "gapFree st \<Longrightarrow> 0 < expectedVerseNum st \<Longrightarrow> dropsNothing conv st parts \<Longrightarrow>
     gapFree (foldl (step conv) st parts) \<and> 0 < expectedVerseNum (foldl (step conv) st parts)"
proof (induction parts arbitrary: st)
  case Nil
  then show ?case by simp
next
  case (Cons part parts)
  from Cons.prems have "gapFree (step conv st part)" "0 < expectedVerseNum (step conv st part)"
    "dropsNothing conv (step conv st part) parts"
    by (simp_all add: gapFree_step expected_step)
  from Cons.IH [OF this] show ?case by simp
qed

lemma gapFree_finish:
  assumes "gapFree st" "0 < expectedVerseNum st" "i < length (finish st)"
  shows "number (finish st ! i) = i + 1"
proof -
  have "\<exists>n. map number (finish st) = [1..<n]"
  proof (cases "trim (currentText st) = []")
    case True
    with assms(1) show ?thesis by (auto simp: finish_def gapFree_def)
  next
    case False
    with assms(1,2) have "map number (finish st) = [1..<Suc (expectedVerseNum st)]"
      by (simp add: finish_def gapFree_def Let_def)
    then show ?thesis by blast
  qed
  then obtain n where n: "map number (finish st) = [1..<n]" by blast
  from assms(3) have "i < length (map number (finish st))" by simp
  with n have "i < length [1..<n]" by simp
  have "number (finish st ! i) = map number (finish st) ! i"
    using assms(3) by simp
  also have "\<dots> = [1..<n] ! i" by (simp add: n)
  also have "\<dots> = 1 + i" using \<open>i < length [1..<n]\<close> by simp
  finally show ?thesis by simp
qed

lemma increasing_from_one:
  fixes xs :: "nat list"
  assumes "sorted_wrt (<) xs" "list_all (\<lambda>x. 1 \<le> x) xs"
  shows "i < length xs \<Longrightarrow> i + 1 \<le> xs ! i"
proof (induction i)
  case 0
  with assms(2) show ?case by (cases xs) simp_all
next
  case (Suc i)
  then have "xs ! i < xs ! Suc i"
    using assms(1) by (simp add: sorted_wrt_nth_less)
  with Suc show ?case by simp
qed

text \<open>
  Claim C1 says that the unit at index \<open>i\<close> has the number \<open>i + 1\<close>. It fails where an
  accepted marker closes an empty unit: a content that starts with the marker 1 gives a
  first unit numbered 2, in both conventions.
\<close>

theorem gap_free_numbering_counterexample:
  "parseVersesFromContent MID_STREAM [0x20, 0x661, 0x20, 0x78] = Some [\<lparr>number = 2, text' = [0x78]\<rparr>] \<and>
   parseVersesFromContent END_OF_UNIT [0x661, 0x20, 0x78] = Some [\<lparr>number = 2, text' = [0x78]\<rparr>] \<and>
   number ([\<lparr>number = 2, text' = [0x78]\<rparr>] ! 0) \<noteq> 0 + 1"
  by (simp add: segmenter_eval)

text \<open>
  Claim C1, amended: for every input string, in either convention, the unit at index
  \<open>i\<close> has a number of at least \<open>i + 1\<close>; and it has the number \<open>i + 1\<close>, for every \<open>i\<close>,
  when no accepted marker of the run closes an empty unit.
\<close>

theorem sequence_numbers_from_index:
  "\<exists>parts units. split conv content = Some parts \<and>
     parseVersesFromContent conv content = Some units \<and>
     (\<forall>i < length units. i + 1 \<le> number (units ! i)) \<and>
     (dropsNothing conv initial parts \<longrightarrow> (\<forall>i < length units. number (units ! i) = i + 1))"
proof -
  obtain parts where parts: "split conv content = Some parts"
    using split_returns by blast
  let ?st = "foldl (step conv) initial parts"
  note res = numbered_result [OF parts]
  from numbered_finish [OF res(2)]
  have "\<forall>i < length (finish ?st). i + 1 \<le> number (finish ?st ! i)"
    using increasing_from_one [of "map number (finish ?st)"]
    by (simp add: list_all_iff)
  moreover have "\<forall>i < length (finish ?st). number (finish ?st ! i) = i + 1"
    if "dropsNothing conv initial parts"
    using gapFree_foldl [OF gapFree_initial _ that] gapFree_finish [of ?st]
    by (simp add: initial_def)
  ultimately show ?thesis using parts res(1) by auto
qed

theorem sequence_numbers_from_index_witness:
  "split END_OF_UNIT [0x61, 0x20, 0x661, 0x20, 0x62, 0x20, 0x663, 0x20, 0x63]
     = Some [[0x61, 0x20], [0x661], [0x62, 0x20], [0x663], [0x63]] \<and>
   dropsNothing END_OF_UNIT initial [[0x61, 0x20], [0x661], [0x62, 0x20], [0x663], [0x63]] \<and>
   parseVersesFromContent END_OF_UNIT [0x61, 0x20, 0x661, 0x20, 0x62, 0x20, 0x663, 0x20, 0x63]
     = Some [\<lparr>number = 1, text' = [0x61]\<rparr>, \<lparr>number = 2, text' = [0x62, 0x20, 0x663, 0x63]\<rparr>] \<and>
   number ([\<lparr>number = 1, text' = [0x61]\<rparr>, \<lparr>number = 2, text' = [0x62, 0x20, 0x663, 0x63]\<rparr>] ! 1) = 1 + 1"
  using sequence_numbers_from_index
    [of END_OF_UNIT "[0x61, 0x20, 0x661, 0x20, 0x62, 0x20, 0x663, 0x20, 0x63]"]
  by (simp add: segmenter_eval closesEmpty_def)

subsection \<open>Text without numerals, and markers\<close>

lemma whiteSpace_not_numeral: "isWhiteSpace c \<Longrightarrow> \<not> isNumeral c"
  by (auto simp: isWhiteSpace_def isNumeral_def)

lemma numerals_None: "s = [] \<or> \<not> isNumeral (hd s) \<Longrightarrow> numerals s = None"
  by (cases s) simp_all

lemma exec_text:
  assumes "\<not> isNumeral c" "conv = END_OF_UNIT \<or> cs = [] \<or> \<not> isNumeral (hd cs)"
  shows "exec conv (c # cs) = None"
proof (cases conv)
  case MID_STREAM
  with assms(2) have "numerals cs = None" by (simp add: numerals_None)
  with MID_STREAM show ?thesis by (simp add: exec_def)
next
  case END_OF_UNIT
  with assms(1) show ?thesis by (simp add: exec_def)
qed

lemma splitLoop_text:
  assumes "list_all (\<lambda>c. \<not> isNumeral c) t" "conv = END_OF_UNIT \<or> s = [] \<or> \<not> isNumeral (hd s)"
  shows "splitLoop conv T (t @ s) = splitLoop conv (T @ t) s"
  using assms(1)
proof (induction t arbitrary: T)
  case Nil
  then show ?case by simp
next
  case (Cons c t)
  have "conv = END_OF_UNIT \<or> t @ s = [] \<or> \<not> isNumeral (hd (t @ s))"
    using assms(2) Cons.prems by (cases t) auto
  with Cons.prems have "exec conv (c # t @ s) = None"
    by (simp add: exec_text)
  with Cons show ?case by (simp add: splitLoop_Cons)
qed

lemma splitLoop_no_numeral:
  "list_all (\<lambda>c. \<not> isNumeral c) s \<Longrightarrow> splitLoop conv T s = Some [T @ s]"
  using splitLoop_text [of s conv "[]" T] by (simp add: splitLoop_Nil)

lemma numerals_marker:
  assumes "list_all isNumeral m" "m \<noteq> []" "s = [] \<or> isWhiteSpace (hd s)"
  shows "numerals (m @ s) = Some (m, tl s)"
  using assms(1,2)
proof (induction m)
  case Nil
  then show ?case by simp
next
  case (Cons c m)
  show ?case
  proof (cases "m = []")
    case True
    from assms(3) have "numerals s = None"
      by (auto simp: numerals_None whiteSpace_not_numeral)
    moreover from assms(3) have "boundary s = Some (tl s)"
      by (cases s) (auto simp: boundary_def)
    ultimately show ?thesis using True Cons.prems by simp
  next
    case False
    with Cons show ?thesis by simp
  qed
qed

lemma not_isVerseNum: "list_all (\<lambda>c. \<not> isNumeral c) s \<Longrightarrow> \<not> isVerseNum s"
  by (cases s) (simp_all add: isVerseNum_def)

lemma trim_blank: "list_all isWhiteSpace s \<Longrightarrow> trim s = []"
proof -
  assume "list_all isWhiteSpace s"
  then have blank: "dropWhile isWhiteSpace s = []" by (simp add: list_all_iff)
  show ?thesis unfolding trim_def blank by simp
qed

lemma trim_not_blank: "\<not> list_all isWhiteSpace s \<Longrightarrow> trim s \<noteq> []"
proof -
  assume "\<not> list_all isWhiteSpace s"
  then have a: "dropWhile isWhiteSpace s \<noteq> []" by (simp add: list_all_iff)
  then have "\<not> isWhiteSpace (hd (dropWhile isWhiteSpace s))"
    by (rule hd_dropWhile)
  moreover from a have "hd (dropWhile isWhiteSpace s) \<in> set (rev (dropWhile isWhiteSpace s))"
    by simp
  ultimately have "dropWhile isWhiteSpace (rev (dropWhile isWhiteSpace s)) \<noteq> []"
    by (auto simp del: set_rev)
  then show ?thesis by (simp add: trim_def)
qed

lemma parse_no_numeral:
  assumes "list_all (\<lambda>c. \<not> isNumeral c) content"
  shows "parseVersesFromContent conv content =
           Some (if trim content \<noteq> [] then [\<lparr>number = 1, text' = trim content\<rparr>] else [])"
proof -
  from assms have "split conv content = Some [content]"
    by (simp add: split_def splitLoop_no_numeral)
  moreover have "step conv initial content = initial\<lparr>currentText := content\<rparr>"
    using not_isVerseNum [OF assms] by (cases conv) (simp_all add: step_def initial_def)
  ultimately show ?thesis
    by (simp add: parseVersesFromContent_def finish_def initial_def)
qed

text \<open>
  Claim C6: in both conventions, a content of white space only gives no unit; a content
  with no numeral at all (and not blank) gives one unit, numbered 1, whose text is the
  trimmed content; and in general the text left after the scan, when it is not blank, is
  pushed as one last unit with the expected number.
\<close>

theorem boundary_contents:
  "(list_all isWhiteSpace content \<longrightarrow> parseVersesFromContent conv content = Some []) \<and>
   (list_all (\<lambda>c. \<not> isNumeral c) content \<and> \<not> list_all isWhiteSpace content \<longrightarrow>
      parseVersesFromContent conv content = Some [\<lparr>number = 1, text' = trim content\<rparr>]) \<and>
   (\<exists>parts. split conv content = Some parts \<and>
      (let st = foldl (step conv) initial parts; remainingText = trim (currentText st)
       in parseVersesFromContent conv content =
            Some (if remainingText \<noteq> []
                  then verses st @ [\<lparr>number = expectedVerseNum st, text' = remainingText\<rparr>]
                  else verses st)))"
proof (intro conjI impI)
  assume blank: "list_all isWhiteSpace content"
  then have "list_all (\<lambda>c. \<not> isNumeral c) content"
    by (simp add: list_all_iff whiteSpace_not_numeral)
  from parse_no_numeral [OF this] blank
  show "parseVersesFromContent conv content = Some []"
    by (simp add: trim_blank)
next
  assume "list_all (\<lambda>c. \<not> isNumeral c) content \<and> \<not> list_all isWhiteSpace content"
  then show "parseVersesFromContent conv content = Some [\<lparr>number = 1, text' = trim content\<rparr>]"
    by (simp add: parse_no_numeral trim_not_blank)
next
  obtain parts where "split conv content = Some parts"
    using split_returns by blast
  then show "\<exists>parts. split conv content = Some parts \<and>
      (let st = foldl (step conv) initial parts; remainingText = trim (currentText st)
       in parseVersesFromContent conv content =
            Some (if remainingText \<noteq> []
                  then verses st @ [\<lparr>number = expectedVerseNum st, text' = remainingText\<rparr>]
                  else verses st))"
    by (simp add: parseVersesFromContent_def finish_def Let_def)
qed

theorem boundary_contents_witness:
  "list_all isWhiteSpace [0x20, 0x09] \<and>
   parseVersesFromContent MID_STREAM [0x20, 0x09] = Some [] \<and>
   list_all (\<lambda>c. \<not> isNumeral c) [0x20, 0x61, 0x62, 0x20] \<and>
   \<not> list_all isWhiteSpace [0x20, 0x61, 0x62, 0x20] \<and>
   parseVersesFromContent END_OF_UNIT [0x20, 0x61, 0x62, 0x20]
     = Some [\<lparr>number = 1, text' = [0x61, 0x62]\<rparr>]"
  using boundary_contents [of "[0x20, 0x09]" MID_STREAM]
    boundary_contents [of "[0x20, 0x61, 0x62, 0x20]" END_OF_UNIT]
  by (simp add: isWhiteSpace_def isNumeral_def trim_def)

subsection \<open>A gap in the markers\<close>

lemma decode_one: "arabicIndicToNumber [0x661] = Finite 1"
  by (simp add: segmenter_eval)

lemma decode_three: "arabicIndicToNumber [0x663] = Finite 3"
  by (simp add: segmenter_eval)

lemma marker_isVerseNum: "isVerseNum [0x661]" "isVerseNum [0x663]"
  by (simp_all add: isVerseNum_def isNumeral_def)

lemma split_gap:
  assumes "list_all (\<lambda>c. \<not> isNumeral c) a" "list_all (\<lambda>c. \<not> isNumeral c) b"
    "list_all (\<lambda>c. \<not> isNumeral c) t" "isWhiteSpace w" "t = [] \<or> isWhiteSpace (hd t)"
  shows "split END_OF_UNIT (a @ [0x661, w] @ b @ [0x663] @ t) = Some [a, [0x661], b, [0x663], tl t]"
proof -
  have m1: "numerals ([0x661] @ w # b @ [0x663] @ t) = Some ([0x661], b @ [0x663] @ t)"
    using numerals_marker [of "[0x661]" "w # b @ [0x663] @ t"] assms(4)
    by (simp add: isNumeral_def)
  have m3: "numerals ([0x663] @ t) = Some ([0x663], tl t)"
    using numerals_marker [of "[0x663]" t] assms(5)
    by (simp add: isNumeral_def)
  have "list_all (\<lambda>c. \<not> isNumeral c) (tl t)"
    using assms(3) by (cases t) simp_all
  then have last: "splitLoop END_OF_UNIT [] (tl t) = Some [tl t]"
    using splitLoop_no_numeral [of "tl t" END_OF_UNIT "[]"] by simp
  have "splitLoop END_OF_UNIT [] (a @ [0x661, w] @ b @ [0x663] @ t)
        = splitLoop END_OF_UNIT a (0x661 # w # b @ [0x663] @ t)"
    using splitLoop_text [OF assms(1), of END_OF_UNIT _ "[]"] by simp
  also have "\<dots> = Option.bind (splitLoop END_OF_UNIT [] (b @ [0x663] @ t))
                      (\<lambda>A. Some (a # [0x661] # A))"
    using m1 by (simp add: splitLoop_Cons exec_def del: numerals.simps)
  also have "splitLoop END_OF_UNIT [] (b @ [0x663] @ t) = splitLoop END_OF_UNIT b (0x663 # t)"
    using splitLoop_text [OF assms(2), of END_OF_UNIT _ "[]"] by simp
  also have "\<dots> = Option.bind (splitLoop END_OF_UNIT [] (tl t)) (\<lambda>A. Some (b # [0x663] # A))"
    using m3 by (simp add: splitLoop_Cons exec_def del: numerals.simps)
  finally show ?thesis by (simp add: split_def last)
qed

lemma dropWhile_keeps: "x \<in> set xs \<Longrightarrow> \<not> P x \<Longrightarrow> x \<in> set (dropWhile P xs)"
  by (induction xs) auto

lemma trim_keeps: "x \<in> set s \<Longrightarrow> \<not> isWhiteSpace x \<Longrightarrow> x \<in> set (trim s)"
  unfolding trim_def set_rev
  by (rule dropWhile_keeps) (simp_all add: dropWhile_keeps)

lemma filter_dropWhile_not: "filter P (dropWhile (\<lambda>x. \<not> P x) xs) = filter P xs"
  by (induction xs) simp_all

lemma trim_visible:
  "filter (\<lambda>c. \<not> isWhiteSpace c) (trim s) = filter (\<lambda>c. \<not> isWhiteSpace c) s"
proof -
  have "filter (\<lambda>c. \<not> isWhiteSpace c) (dropWhile isWhiteSpace xs)
      = filter (\<lambda>c. \<not> isWhiteSpace c) xs" for xs
    using filter_dropWhile_not [of "\<lambda>c. \<not> isWhiteSpace c" xs] by simp
  then show ?thesis by (simp add: trim_def flip: rev_filter)
qed

text \<open>
  What the script returns for a content with the marker 1 and then the marker 3 and no
  other numeral: \<open>a\<close> is the text before the marker 1, \<open>b\<close> the text between the markers
  and \<open>t\<close> the text after the marker 3. The white space \<open>w\<close> and the first unit of \<open>t\<close> are
  what the two matches of \<open>split\<close> consume.
\<close>

lemma gap_rejection_units:
  assumes "list_all (\<lambda>c. \<not> isNumeral c) a" "list_all (\<lambda>c. \<not> isNumeral c) b"
    "list_all (\<lambda>c. \<not> isNumeral c) t" "isWhiteSpace w" "t = [] \<or> isWhiteSpace (hd t)"
    "\<not> list_all isWhiteSpace a"
  shows "parseVersesFromContent END_OF_UNIT (a @ [0x661, w] @ b @ [0x663] @ t)
         = Some [\<lparr>number = 1, text' = trim a\<rparr>, \<lparr>number = 2, text' = trim (b @ [0x663] @ tl t)\<rparr>]
       \<and> 0x663 \<in> set (trim (b @ [0x663] @ tl t))
       \<and> filter (\<lambda>c. \<not> isWhiteSpace c) (trim (b @ [0x663] @ tl t))
           = filter (\<lambda>c. \<not> isWhiteSpace c) (b @ [0x663] @ t)"
proof -
  have three: "\<not> isWhiteSpace 0x663" by (simp add: isWhiteSpace_def)
  then have kept: "0x663 \<in> set (trim (b @ [0x663] @ tl t))"
    by (simp add: trim_keeps)
  then have rest: "trim (b @ 0x663 # tl t) \<noteq> []" by auto
  have "list_all (\<lambda>c. \<not> isNumeral c) (tl t)"
    using assms(3) by (cases t) simp_all
  note plain = not_isVerseNum [OF assms(1)] not_isVerseNum [OF assms(2)] not_isVerseNum [OF this]
  have "foldl (step END_OF_UNIT) initial [a, [0x661], b, [0x663], tl t]
        = \<lparr>verses = [\<lparr>number = 1, text' = trim a\<rparr>], currentText = b @ [0x663] @ tl t,
           expectedVerseNum = 2\<rparr>"
    using plain trim_not_blank [OF assms(6)]
    by (simp add: step_def initial_def marker_isVerseNum decode_one decode_three)
  with split_gap [OF assms(1-5)] rest
  have "parseVersesFromContent END_OF_UNIT (a @ [0x661, w] @ b @ [0x663] @ t)
         = Some [\<lparr>number = 1, text' = trim a\<rparr>, \<lparr>number = 2, text' = trim (b @ [0x663] @ tl t)\<rparr>]"
    by (simp add: parseVersesFromContent_def finish_def)
  moreover have "filter (\<lambda>c. \<not> isWhiteSpace c) (tl t) = filter (\<lambda>c. \<not> isWhiteSpace c) t"
    using assms(5) by (cases t) simp_all
  then have "filter (\<lambda>c. \<not> isWhiteSpace c) (trim (b @ [0x663] @ tl t))
           = filter (\<lambda>c. \<not> isWhiteSpace c) (b @ [0x663] @ t)"
    by (simp add: trim_visible)
  ultimately show ?thesis using kept by simp
qed

text \<open>
  Claim C4: in the end-of-unit convention, a content with the marker 1 and then the marker
  3 gives the unit numbered 1 with the text before the marker 1, keeps the marker 3 as
  text, because 3 is not the expected 2, and ends with exactly one more unit, numbered 2,
  whose text is the remainder, the character of the marker 3 included. On the content
  \<open>"a 1 b 3 c"\<close> (1 and 3 standing for the Arabic-Indic digits) the script returns the
  units \<open>(1, "a")\<close> and \<open>(2, "b 3c")\<close>: all is as the claim says but the text of the last
  unit, which is not the remainder \<open>"b 3 c"\<close>. The white space after the rejected marker
  was consumed by \<open>split\<close> and the script does not put it back. The handler, on the same
  content, returns the remainder.
\<close>

theorem gap_rejection_loses_white_space:
  "split END_OF_UNIT [0x61, 0x20, 0x661, 0x20, 0x62, 0x20, 0x663, 0x20, 0x63]
     = Some [[0x61, 0x20], [0x661], [0x62, 0x20], [0x663], [0x63]] \<and>
   parseVersesFromContent END_OF_UNIT [0x61, 0x20, 0x661, 0x20, 0x62, 0x20, 0x663, 0x20, 0x63]
     = Some [\<lparr>number = 1, text' = [0x61]\<rparr>, \<lparr>number = 2, text' = [0x62, 0x20, 0x663, 0x63]\<rparr>] \<and>
   trim [0x62, 0x20, 0x663, 0x20, 0x63] = [0x62, 0x20, 0x663, 0x20, 0x63] \<and>
   [0x62, 0x20, 0x663, 0x63] \<noteq> trim [0x62, 0x20, 0x663, 0x20, 0x63] \<and>
   parseVersesFromContent MID_STREAM [0x61, 0x20, 0x661, 0x20, 0x62, 0x20, 0x663, 0x20, 0x63]
     = Some [\<lparr>number = 1, text' = [0x61]\<rparr>,
             \<lparr>number = 2, text' = [0x62, 0x20, 0x663, 0x20, 0x63]\<rparr>]"
  by (simp add: segmenter_eval)

subsection \<open>What is appended to the buffer\<close>

lemma split_one_marker:
  assumes "list_all (\<lambda>c. \<not> isNumeral c) a" "list_all (\<lambda>c. \<not> isNumeral c) b"
    "list_all isNumeral m" "m \<noteq> []" "isWhiteSpace w1" "isWhiteSpace w2"
  shows "split MID_STREAM (a @ [w1] @ m @ [w2] @ b) = Some [a, m, b]"
proof -
  have m: "numerals (m @ w2 # b) = Some (m, b)"
    using numerals_marker [OF assms(3,4), of "w2 # b"] assms(6) by simp
  have "splitLoop MID_STREAM [] (a @ [w1] @ m @ [w2] @ b)
        = splitLoop MID_STREAM a (w1 # m @ w2 # b)"
    using splitLoop_text [OF assms(1), of MID_STREAM "w1 # m @ w2 # b" "[]"] assms(5)
    by (simp add: whiteSpace_not_numeral)
  also have "\<dots> = Option.bind (splitLoop MID_STREAM [] b) (\<lambda>A. Some (a # m # A))"
    using m assms(5) by (simp add: splitLoop_Cons exec_def)
  also have "splitLoop MID_STREAM [] b = Some [b]"
    using splitLoop_no_numeral [OF assms(2), of MID_STREAM "[]"] by simp
  finally show ?thesis by (simp add: split_def)
qed

lemma numerals_isVerseNum: "list_all isNumeral m \<Longrightarrow> m \<noteq> [] \<Longrightarrow> isVerseNum m"
  by (simp add: isVerseNum_def)

lemma numeral_not_whiteSpace: "isNumeral c \<Longrightarrow> \<not> isWhiteSpace c"
  using whiteSpace_not_numeral by blast

lemma split_last_marker:
  assumes "list_all (\<lambda>c. \<not> isNumeral c) a" "list_all isNumeral m" "m \<noteq> []"
  shows "split END_OF_UNIT (a @ m) = Some [a, m, []]"
proof -
  have "numerals (m @ []) = Some (m, tl [])"
    by (rule numerals_marker [OF assms(2,3)]) simp
  then have "exec END_OF_UNIT m = Some (m, [])" by (simp add: exec_def)
  then have "splitLoop END_OF_UNIT a m
      = Option.bind (splitLoop END_OF_UNIT [] []) (\<lambda>A. Some (a # m # A))"
    by (rule splitLoop_match)
  moreover have "splitLoop END_OF_UNIT [] (a @ m) = splitLoop END_OF_UNIT a m"
    using splitLoop_text [OF assms(1), of END_OF_UNIT m "[]"] by simp
  ultimately show ?thesis by (simp add: split_def splitLoop_Nil)
qed

lemma decode_five: "arabicIndicToNumber [0x665] = Finite 5"
  by (simp add: segmenter_eval)

text \<open>
  Claim C5 says that in both conventions a rejected candidate is appended to the buffer
  after a single space. The script appends it as it is: with the buffer \<open>"a"\<close> the
  rejected marker 3 gives \<open>"a3"\<close> (3 standing for the Arabic-Indic digit), not \<open>"a 3"\<close>,
  and the content \<open>"a3 b"\<close> becomes the one unit \<open>"a3b"\<close>.
\<close>

theorem separating_space_counterexample:
  "isVerseNum [0x663] \<and>
   arabicIndicToNumber [0x663] \<noteq> Finite (int (expectedVerseNum
      \<lparr>verses = [], currentText = [0x61], expectedVerseNum = 1\<rparr>)) \<and>
   currentText (step END_OF_UNIT \<lparr>verses = [], currentText = [0x61], expectedVerseNum = 1\<rparr> [0x663])
     \<noteq> [0x61] @ [0x20] @ [0x663] \<and>
   parseVersesFromContent END_OF_UNIT [0x61, 0x663, 0x20, 0x62]
     = Some [\<lparr>number = 1, text' = [0x61, 0x663, 0x62]\<rparr>]"
  by (simp add: segmenter_eval)

text \<open>
  Claim C5, amended: in the mid-stream convention a rejected candidate is appended to the
  buffer after a single space, and any other part after a single space when the buffer
  is not empty; so for a content with one rejected marker, one white-space character on
  each side of it and text without numerals around, the text of the unit is the text
  before, a space, the marker, a space and the text after, trimmed (the two characters
  that \<open>split\<close> matched come back as spaces, all other white space stays as it is). In
  the end-of-unit convention a rejected candidate and any other part are appended as they
  are, with no separator; so for a content that ends with one rejected marker after text
  without numerals, the text of the unit is the trimmed content.
\<close>

theorem appended_text:
  "(isVerseNum part \<and> arabicIndicToNumber part \<noteq> Finite (int (expectedVerseNum st)) \<longrightarrow>
      step MID_STREAM st part = st\<lparr>currentText := currentText st @ [0x20] @ part\<rparr> \<and>
      step END_OF_UNIT st part = st\<lparr>currentText := currentText st @ part\<rparr>) \<and>
   (\<not> isVerseNum part \<longrightarrow>
      step MID_STREAM st part =
        st\<lparr>currentText := (if currentText st = [] then part else currentText st @ [0x20] @ part)\<rparr> \<and>
      step END_OF_UNIT st part = st\<lparr>currentText := currentText st @ part\<rparr>) \<and>
   (list_all (\<lambda>c. \<not> isNumeral c) a \<and> list_all (\<lambda>c. \<not> isNumeral c) b \<and>
    isVerseNum part \<and> arabicIndicToNumber part \<noteq> Finite 1 \<and> isWhiteSpace w1 \<and> isWhiteSpace w2 \<longrightarrow>
      parseVersesFromContent MID_STREAM (a @ [w1] @ part @ [w2] @ b)
        = Some [\<lparr>number = 1, text' = trim (a @ [0x20] @ part @ [0x20] @ b)\<rparr>]) \<and>
   (list_all (\<lambda>c. \<not> isNumeral c) a \<and> isVerseNum part \<and> arabicIndicToNumber part \<noteq> Finite 1 \<longrightarrow>
      parseVersesFromContent END_OF_UNIT (a @ part)
        = Some [\<lparr>number = 1, text' = trim (a @ part)\<rparr>])"
proof (intro conjI impI)
  assume h: "list_all (\<lambda>c. \<not> isNumeral c) a \<and> list_all (\<lambda>c. \<not> isNumeral c) b \<and>
    isVerseNum part \<and> arabicIndicToNumber part \<noteq> Finite 1 \<and> isWhiteSpace w1 \<and> isWhiteSpace w2"
  then have m: "list_all isNumeral part" "part \<noteq> []" by (simp_all add: isVerseNum_def)
  have sp: "split MID_STREAM (a @ [w1] @ part @ [w2] @ b) = Some [a, part, b]"
    using h m by (intro split_one_marker) simp_all
  from h have plain: "\<not> isVerseNum a" "\<not> isVerseNum b" by (simp_all add: not_isVerseNum)
  have run: "foldl (step MID_STREAM) initial [a, part, b]
        = \<lparr>verses = [], currentText = a @ [0x20] @ part @ [0x20] @ b, expectedVerseNum = 1\<rparr>"
    using h plain by (simp add: step_def initial_def)
  from m obtain c where c: "c \<in> set part" "isNumeral c" by (cases part) auto
  then have "c \<in> set (trim (a @ [0x20] @ part @ [0x20] @ b))"
    by (intro trim_keeps) (simp_all add: numeral_not_whiteSpace)
  then have "trim (a @ [0x20] @ part @ [0x20] @ b) \<noteq> []" by auto
  with sp run show "parseVersesFromContent MID_STREAM (a @ [w1] @ part @ [w2] @ b)
        = Some [\<lparr>number = 1, text' = trim (a @ [0x20] @ part @ [0x20] @ b)\<rparr>]"
    by (simp add: parseVersesFromContent_def finish_def)
next
  assume h: "list_all (\<lambda>c. \<not> isNumeral c) a \<and> isVerseNum part \<and>
    arabicIndicToNumber part \<noteq> Finite 1"
  then have m: "list_all isNumeral part" "part \<noteq> []" by (simp_all add: isVerseNum_def)
  have sp: "split END_OF_UNIT (a @ part) = Some [a, part, []]"
    using h m by (intro split_last_marker) simp_all
  from h have plain: "\<not> isVerseNum a" "\<not> isVerseNum []"
    by (simp_all add: not_isVerseNum)
  have run: "foldl (step END_OF_UNIT) initial [a, part, []]
        = \<lparr>verses = [], currentText = a @ part, expectedVerseNum = 1\<rparr>"
    using h plain by (simp add: step_def initial_def)
  from m obtain c where c: "c \<in> set part" "isNumeral c" by (cases part) auto
  then have "c \<in> set (trim (a @ part))"
    by (intro trim_keeps) (simp_all add: numeral_not_whiteSpace)
  then have "trim (a @ part) \<noteq> []" by auto
  with sp run show "parseVersesFromContent END_OF_UNIT (a @ part)
        = Some [\<lparr>number = 1, text' = trim (a @ part)\<rparr>]"
    by (simp add: parseVersesFromContent_def finish_def)
qed (simp_all add: step_def)

theorem appended_text_witness:
  "isVerseNum [0x663] \<and> arabicIndicToNumber [0x663] \<noteq> Finite (int 1) \<and>
   step MID_STREAM \<lparr>verses = [], currentText = [0x61], expectedVerseNum = 1\<rparr> [0x663]
     = \<lparr>verses = [], currentText = [0x61, 0x20, 0x663], expectedVerseNum = 1\<rparr> \<and>
   step END_OF_UNIT \<lparr>verses = [], currentText = [0x61], expectedVerseNum = 1\<rparr> [0x663]
     = \<lparr>verses = [], currentText = [0x61, 0x663], expectedVerseNum = 1\<rparr> \<and>
   \<not> isVerseNum [0x62] \<and>
   step MID_STREAM \<lparr>verses = [], currentText = [0x61], expectedVerseNum = 1\<rparr> [0x62]
     = \<lparr>verses = [], currentText = [0x61, 0x20, 0x62], expectedVerseNum = 1\<rparr> \<and>
   step END_OF_UNIT \<lparr>verses = [], currentText = [0x61], expectedVerseNum = 1\<rparr> [0x62]
     = \<lparr>verses = [], currentText = [0x61, 0x62], expectedVerseNum = 1\<rparr> \<and>
   list_all (\<lambda>c. \<not> isNumeral c) [0x61, 0x09] \<and> list_all (\<lambda>c. \<not> isNumeral c) [0x62] \<and>
   isVerseNum [0x665] \<and> arabicIndicToNumber [0x665] \<noteq> Finite 1 \<and>
   isWhiteSpace 0x09 \<and> isWhiteSpace 0x20 \<and>
   parseVersesFromContent MID_STREAM [0x61, 0x09, 0x09, 0x665, 0x20, 0x62]
     = Some [\<lparr>number = 1, text' = [0x61, 0x09, 0x20, 0x665, 0x20, 0x62]\<rparr>] \<and>
   list_all (\<lambda>c. \<not> isNumeral c) [0x61] \<and>
   parseVersesFromContent END_OF_UNIT [0x61, 0x663]
     = Some [\<lparr>number = 1, text' = [0x61, 0x663]\<rparr>]"
  using appended_text [of "[0x663]" "\<lparr>verses = [], currentText = [0x61], expectedVerseNum = 1\<rparr>"
      "[0x61]" "[]" "0x20" "0x20"]
    appended_text [of "[0x62]" "\<lparr>verses = [], currentText = [0x61], expectedVerseNum = 1\<rparr>"
      "[]" "[]" "0x20" "0x20"]
    appended_text [of "[0x665]" "\<lparr>verses = [], currentText = [], expectedVerseNum = 1\<rparr>"
      "[0x61, 0x09]" "[0x62]" "0x09" "0x20"]
  by (simp add: decode_three decode_five isVerseNum_def isNumeral_def isWhiteSpace_def trim_def)

subsection \<open>Rounding\<close>

lemma bitLength_bounds: "0 < n \<Longrightarrow> 2 ^ (bitLength n - 1) \<le> n \<and> n < 2 ^ bitLength n"
proof (induction n rule: bitLength.induct)
  case (1 n)
  show ?case
  proof (cases "n div 2 = 0")
    case True
    with "1.prems" have "n = 1" by (auto simp: div_eq_0_iff)
    then show ?thesis by (simp add: bitLength.simps)
  next
    case False
    define k where "k = bitLength (n div 2)"
    define p :: nat where "p = 2 ^ (k - 1)"
    from False "1.IH" "1.prems" have ih: "p \<le> n div 2" "n div 2 < 2 ^ k"
      by (simp_all add: p_def k_def)
    from False have "0 < k"
      unfolding k_def by (subst bitLength.simps) simp
    then have k: "(2::nat) ^ k = 2 * p"
      by (cases k) (simp_all add: p_def)
    have len: "bitLength n = Suc k"
      using "1.prems" unfolding k_def by (subst bitLength.simps) simp
    have "2 ^ (bitLength n - 1) = 2 * p" "(2::nat) ^ bitLength n = 4 * p"
      by (simp_all add: len k)
    moreover have "2 * p \<le> n \<and> n < 4 * p"
      using ih unfolding k by arith
    ultimately show ?thesis by simp
  qed
qed

lemma roundToDouble_large:
  assumes "2 ^ 53 \<le> a" "roundToDouble a = Some v"
  shows "2 ^ 53 \<le> v"
proof -
  define e where "e = bitLength a - 53"
  define q where "q = a div 2 ^ e"
  from assms(1) have pos: "0 < a" by (simp add: less_le_trans [of 0 "2 ^ 53"])
  from bitLength_bounds [OF pos] have b: "2 ^ (bitLength a - 1) \<le> a" "a < 2 ^ bitLength a"
    by simp_all
  from assms(1) b(2) have "(2::nat) ^ 53 < 2 ^ bitLength a" by (rule le_less_trans)
  then have big: "53 < bitLength a" by (rule power_less_imp_less_exp [rotated]) simp
  then have split: "bitLength a - 1 = 52 + e" by (simp add: e_def)
  have "2 ^ 52 * 2 ^ e \<le> a" using b(1) unfolding split power_add .
  then have "2 ^ 52 \<le> q" unfolding q_def by (simp add: less_eq_div_iff_mult_less_eq)
  moreover from big have "1 \<le> e" by (simp add: e_def)
  then have "(2::nat) ^ 1 \<le> 2 ^ e" by (intro power_increasing) simp_all
  ultimately have "2 ^ 52 * 2 ^ 1 \<le> q * 2 ^ e" by (intro mult_le_mono)
  then have low: "2 ^ 53 \<le> q * 2 ^ e" by simp
  have "q * 2 ^ e \<le> (q + 1) * 2 ^ e" by simp
  with low have low': "2 ^ 53 \<le> (q + 1) * 2 ^ e" by (rule order_trans)
  from assms show ?thesis
    using low low'
    by (auto simp: roundToDouble_def Let_def e_def [symmetric] q_def [symmetric]
        split: if_splits)
qed

lemma toNumber_safe:
  assumes "toNumber (int y) = Finite (int x)" "x < 2 ^ 53"
  shows "y = x"
proof (cases "y < 2 ^ 53")
  case True
  with assms(1) show ?thesis by (simp add: toNumber_def roundToDouble_def)
next
  case False
  from assms(1) obtain v where v: "roundToDouble y = Some v" "v = x"
    by (auto simp: toNumber_def split: option.splits)
  from False roundToDouble_large [OF _ v(1)] have "2 ^ 53 \<le> v" by simp
  with v(2) assms(2) show ?thesis by simp
qed

lemma toNumber_exact: "n \<le> 2 ^ 53 \<Longrightarrow> toNumber (int n) = Finite (int n)"
proof (cases "n < 2 ^ 53")
  case True
  then show ?thesis by (simp add: toNumber_def roundToDouble_def)
next
  case False
  moreover assume "n \<le> 2 ^ 53"
  ultimately have "n = 2 ^ 53" by simp
  then show ?thesis
    by (simp add: toNumber_def roundToDouble_def bitLength.simps)
qed

subsection \<open>Decoding\<close>

lemma arabicIndicDigits_numeral:
  assumes "isNumeral c"
  shows "arabicIndicDigits c = Some [0x30 + numeralDigit c]"
proof -
  from assms have
    "c = 0x660 \<or> c = 0x661 \<or> c = 0x662 \<or> c = 0x663 \<or> c = 0x664 \<or>
     c = 0x665 \<or> c = 0x666 \<or> c = 0x667 \<or> c = 0x668 \<or> c = 0x669 \<or>
     c = 0x6F0 \<or> c = 0x6F1 \<or> c = 0x6F2 \<or> c = 0x6F3 \<or> c = 0x6F4 \<or>
     c = 0x6F5 \<or> c = 0x6F6 \<or> c = 0x6F7 \<or> c = 0x6F8 \<or> c = 0x6F9"
    unfolding isNumeral_def by arith
  then show ?thesis
    by (elim disjE) (simp_all add: arabicIndicDigits_def numeralDigit_def)
qed

lemma numeralDigit_less: "isNumeral c \<Longrightarrow> numeralDigit c < 10"
  by (auto simp: isNumeral_def numeralDigit_def)

lemma asciiDigit_not_whiteSpace: "asciiDigit c \<Longrightarrow> \<not> isWhiteSpace c"
  by (auto simp: asciiDigit_def isWhiteSpace_def)

lemma digitValue_ascii: "asciiDigit c \<Longrightarrow> digitValue 10 c = Some (c - 0x30)"
  by (simp add: asciiDigit_def digitValue_def)

lemma parseInt_digits:
  assumes "ds \<noteq> []" "list_all asciiDigit ds"
  shows "parseInt ds = toNumber (int (mathInt 10 ds))"
proof -
  from assms obtain a as where ds: "ds = a # as" by (cases ds) auto
  with assms(2) have a: "asciiDigit a" by simp
  then have "\<not> isWhiteSpace a" by (rule asciiDigit_not_whiteSpace)
  then have S: "dropWhile isWhiteSpace ds = ds" by (simp add: ds)
  from a have sign: "a \<noteq> 0x2B" "a \<noteq> 0x2D" by (auto simp: asciiDigit_def)
  have hex: "\<not> (case ds of a # b # _ \<Rightarrow> a = 0x30 \<and> (b = 0x78 \<or> b = 0x58) | _ \<Rightarrow> False)"
    using assms(2) by (auto simp: asciiDigit_def split: list.splits)
  have Z: "takeWhile (\<lambda>c. digitValue 10 c \<noteq> None) ds = ds"
    using assms(2) by (simp add: list_all_iff digitValue_ascii)
  show ?thesis
    unfolding parseInt_def S Let_def
    using sign hex Z assms(1) by (simp add: ds)
qed

lemma mathInt_map:
  "list_all isNumeral s \<Longrightarrow>
     foldl (\<lambda>acc c. acc * 10 + the (digitValue 10 c)) v (map (\<lambda>c. 0x30 + numeralDigit c) s)
       = foldl (\<lambda>v c. 10 * v + numeralDigit c) v s"
proof (induction s arbitrary: v)
  case Nil
  then show ?case by simp
next
  case (Cons c s)
  from Cons.prems have "numeralDigit c < 10" by (simp add: numeralDigit_less)
  then have "digitValue 10 (0x30 + numeralDigit c) = Some (numeralDigit c)"
    by (simp add: digitValue_def)
  with Cons show ?case by (simp add: mult.commute)
qed

lemma mapped_numerals:
  "list_all isNumeral s \<Longrightarrow>
     concat (map (\<lambda>c. case arabicIndicDigits c of Some d \<Rightarrow> d | None \<Rightarrow> [c]) s)
       = map (\<lambda>c. 0x30 + numeralDigit c) s"
  by (induction s) (simp_all add: arabicIndicDigits_numeral)

lemma arabicIndicToNumber_numerals:
  assumes "s \<noteq> []" "list_all isNumeral s"
  shows "arabicIndicToNumber s = toNumber (int (numeralValue s))"
proof -
  let ?ds = "map (\<lambda>c. 0x30 + numeralDigit c) s"
  have "list_all asciiDigit ?ds"
    using assms(2) numeralDigit_less by (fastforce simp: list_all_iff asciiDigit_def)
  with assms(1) have "parseInt ?ds = toNumber (int (mathInt 10 ?ds))"
    by (intro parseInt_digits) simp_all
  also have "mathInt 10 ?ds = numeralValue s"
    unfolding mathInt_def numeralValue_def by (rule mathInt_map [OF assms(2)])
  finally show ?thesis
    by (simp add: arabicIndicToNumber_def mapped_numerals [OF assms(2)])
qed

text \<open>
  Claim C2 says that a string of numerals always decodes to the integer its digits
  spell. The result is a Number: the sixteen numerals that spell \<open>2^53 + 1\<close> decode to
  \<open>2^53\<close>.
\<close>

theorem decoded_value_counterexample:
  "list_all isNumeral
     [0x669, 0x660, 0x660, 0x667, 0x661, 0x669, 0x669, 0x662,
      0x665, 0x664, 0x667, 0x664, 0x660, 0x669, 0x669, 0x663] \<and>
   numeralValue
     [0x669, 0x660, 0x660, 0x667, 0x661, 0x669, 0x669, 0x662,
      0x665, 0x664, 0x667, 0x664, 0x660, 0x669, 0x669, 0x663] = 9007199254740993 \<and>
   arabicIndicToNumber
     [0x669, 0x660, 0x660, 0x667, 0x661, 0x669, 0x669, 0x662,
      0x665, 0x664, 0x667, 0x664, 0x660, 0x669, 0x669, 0x663] = Finite 9007199254740992"
  by (simp add: segmenter_eval numeralValue_def numeralDigit_def bitLength.simps)

text \<open>
  Claim C2, amended: for every non-empty string of numerals of the two alphabets whose
  digits, composed from left to right in base 10, spell an integer of at most \<open>2^53\<close>,
  \<open>arabicIndicToNumber\<close> returns that integer; so the numerals 1, 0, 2 of either
  alphabet give 102.
\<close>

theorem decoded_value:
  assumes "s \<noteq> []" "list_all isNumeral s" "numeralValue s \<le> 2 ^ 53"
  shows "arabicIndicToNumber s = Finite (int (numeralValue s))"
  using arabicIndicToNumber_numerals [OF assms(1,2)] assms(3) by (simp add: toNumber_exact)

theorem decoded_value_witness:
  "[0x661, 0x660, 0x662] \<noteq> [] \<and> list_all isNumeral [0x661, 0x660, 0x662] \<and>
   numeralValue [0x661, 0x660, 0x662] = 102 \<and> (102::nat) \<le> 2 ^ 53 \<and>
   arabicIndicToNumber [0x661, 0x660, 0x662] = Finite 102 \<and>
   list_all isNumeral [0x6F1, 0x6F0, 0x6F2] \<and> numeralValue [0x6F1, 0x6F0, 0x6F2] = 102 \<and>
   arabicIndicToNumber [0x6F1, 0x6F0, 0x6F2] = Finite 102"
  using decoded_value [of "[0x661, 0x660, 0x662]"] decoded_value [of "[0x6F1, 0x6F0, 0x6F2]"]
  by (simp add: isNumeral_def numeralValue_def numeralDigit_def)

subsection \<open>Decimal digits\<close>

lemma decimal_small: "n < 10 \<Longrightarrow> decimal n = [0x30 + n]"
  by (subst decimal.simps) simp

lemma decimal_large: "10 \<le> n \<Longrightarrow> decimal n = decimal (n div 10) @ [0x30 + n mod 10]"
  by (subst decimal.simps) simp

lemma decimal_times_ten: "0 < x \<Longrightarrow> decimal (10 * x) = decimal x @ [0x30]"
  by (simp add: decimal_large)

lemma decimal_shift: "0 < s \<Longrightarrow> decimal (s * 10 ^ m) = decimal s @ replicate m 0x30"
proof (induction m)
  case 0
  then show ?case by simp
next
  case (Suc m)
  have "decimal (s * 10 ^ Suc m) = decimal (10 * (s * 10 ^ m))"
    by (simp add: mult.assoc mult.left_commute)
  also have "\<dots> = decimal (s * 10 ^ m) @ [0x30]"
    using Suc.prems by (intro decimal_times_ten) simp
  finally show ?case
    using Suc by (simp add: replicate_append_same)
qed

lemma decimal_digits: "list_all asciiDigit (decimal n) \<and> decimal n \<noteq> []"
proof (induction n rule: decimal.induct)
  case (1 n)
  show ?case
  proof (cases "n < 10")
    case True
    then show ?thesis by (simp add: decimal_small asciiDigit_def)
  next
    case False
    have "n mod 10 < 10" by simp
    then have "asciiDigit (0x30 + n mod 10)" unfolding asciiDigit_def by arith
    with False "1.IH" show ?thesis by (simp add: decimal_large)
  qed
qed

lemma decimal_value: "foldl (\<lambda>v c. 10 * v + (c - 0x30)) 0 (decimal n) = n"
proof (induction n rule: decimal.induct)
  case (1 n)
  show ?case
  proof (cases "n < 10")
    case True
    then show ?thesis by (simp add: decimal_small)
  next
    case False
    with "1.IH" show ?thesis by (simp add: decimal_large)
  qed
qed

lemma decimal_length: "n < 10 ^ m \<Longrightarrow> 0 < m \<Longrightarrow> length (decimal n) \<le> m"
proof (induction n arbitrary: m rule: decimal.induct)
  case (1 n)
  show ?case
  proof (cases "n < 10")
    case True
    with "1.prems" show ?thesis by (simp add: decimal_small)
  next
    case False
    from "1.prems" obtain m' where m: "m = Suc m'" by (cases m) auto
    with "1.prems" have "n div 10 < 10 ^ m'" by (simp add: less_mult_imp_div_less mult.commute)
    moreover from False this have "0 < m'" by (cases m') auto
    ultimately have "length (decimal (n div 10)) \<le> m'"
      using False "1.IH" by simp
    with False m show ?thesis by (simp add: decimal_large)
  qed
qed

lemma decimal_bound: "n < 10 ^ length (decimal n)"
proof (induction n rule: decimal.induct)
  case (1 n)
  show ?case
  proof (cases "n < 10")
    case True
    then show ?thesis by (simp add: decimal_small)
  next
    case False
    with "1.IH" have "n div 10 < 10 ^ length (decimal (n div 10))" by simp
    then have "n < 10 * 10 ^ length (decimal (n div 10))" by arith
    with False show ?thesis by (simp add: decimal_large)
  qed
qed

subsection \<open>Encoding\<close>

lemma candidates_exact:
  assumes "s \<in> set (candidates x d k)" "x < 2 ^ 53"
  shows "s * 10 ^ (d - k) = x \<and> 0 < s"
proof -
  from assms(1) have r: "toNumber (int (s * 10 ^ (d - k))) = Finite (int x)" and "10 ^ (k - 1) \<le> s"
    by (simp_all add: candidates_def del: filter.simps)
  from this(2) have "0 < s" by (cases "s = 0") simp_all
  with toNumber_safe [OF r assms(2)] show ?thesis by simp
qed

lemma closest_candidate:
  assumes "candidates x d k \<noteq> []"
  shows "closest x d k (candidates x d k) \<in> set (candidates x d k)"
proof -
  have "length (candidates x d k) \<le> 2"
    unfolding candidates_def by (rule order_trans [OF length_filter_le]) simp
  with assms consider s where "candidates x d k = [s]"
    | s0 s1 where "candidates x d k = [s0, s1]"
    by (cases "candidates x d k" rule: list.exhaust; 
        cases "tl (candidates x d k)" rule: list.exhaust;
        cases "tl (tl (candidates x d k))") auto
  then show ?thesis
    by cases (auto simp: closest_def Let_def)
qed

lemma shortestDigits_safe:
  assumes "0 < x" "x < 2 ^ 53" "shortestDigits x = (n, k, s)"
  shows "n = length (decimal x) \<and> s * 10 ^ (n - k) = x \<and> 0 < s"
proof -
  define d where "d = length (decimal x)"
  have "x < 10 ^ d" unfolding d_def by (rule decimal_bound)
  then have "toNumber (int (10 ^ d)) \<noteq> Finite (int x)"
    using toNumber_safe [of "10 ^ d" x] assms(2) by auto
  then have sd: "shortestDigits x =
      (case find (\<lambda>k. candidates x d k \<noteq> []) [1..<d] of
         Some k \<Rightarrow> (d, k, closest x d k (candidates x d k))
       | None \<Rightarrow> (d, d, x))"
    by (simp add: shortestDigits_def d_def [symmetric] Let_def)
  show ?thesis
  proof (cases "find (\<lambda>k. candidates x d k \<noteq> []) [1..<d]")
    case None
    with sd assms(1,3) show ?thesis by (simp add: d_def)
  next
    case (Some k')
    then have "candidates x d k' \<noteq> []" by (auto simp: find_Some_iff)
    from closest_candidate [OF this]
    have "closest x d k' (candidates x d k') \<in> set (candidates x d k')" .
    from candidates_exact [OF this assms(2)] sd Some assms(3) show ?thesis
      by (auto simp: d_def)
  qed
qed

lemma positiveToString_safe:
  assumes "0 < x" "x < 2 ^ 53"
  shows "positiveToString x = decimal x"
proof -
  obtain n k s where sd: "shortestDigits x = (n, k, s)" by (cases "shortestDigits x")
  from shortestDigits_safe [OF assms sd]
  have n: "n = length (decimal x)" and s: "s * 10 ^ (n - k) = x" "0 < s" by blast+
  have "x < 10 ^ 16" using assms(2) by simp
  then have "length (decimal x) \<le> 16" by (rule decimal_length) simp
  with n have "n \<le> 21" by simp
  with sd have "positiveToString x = decimal s @ replicate (n - k) 0x30"
    by (simp add: positiveToString_def)
  also have "\<dots> = decimal (s * 10 ^ (n - k))"
    using s(2) by (simp add: decimal_shift)
  finally show ?thesis by (simp add: s(1))
qed

lemma numberToString_safe: "n < 2 ^ 53 \<Longrightarrow> numberToString (Finite (int n)) = decimal n"
  by (cases "n = 0") (simp_all add: numberToString_def positiveToString_safe decimal_small)

lemma digit_to_numeral:
  assumes "asciiDigit d"
  shows "(case digitsAt (parseInt [d]) of Some g \<Rightarrow> g | None \<Rightarrow> []) = [0x660 + (d - 0x30)]"
proof -
  from assms have "d = 0x30 \<or> d = 0x31 \<or> d = 0x32 \<or> d = 0x33 \<or> d = 0x34 \<or>
      d = 0x35 \<or> d = 0x36 \<or> d = 0x37 \<or> d = 0x38 \<or> d = 0x39"
    unfolding asciiDigit_def by arith
  then show ?thesis
    by (elim disjE)
       (simp_all add: parseInt_def isWhiteSpace_def digitValue_def mathInt_def toNumber_def
          roundToDouble_def digitsAt_def digits_def)
qed

lemma numberToArabicIndic_safe:
  assumes "n < 2 ^ 53"
  shows "numberToArabicIndic (Finite (int n)) = map (\<lambda>d. 0x660 + (d - 0x30)) (decimal n)"
proof -
  have "list_all asciiDigit ds \<Longrightarrow>
      concat (map (\<lambda>d. case digitsAt (parseInt [d]) of Some g \<Rightarrow> g | None \<Rightarrow> []) ds)
        = map (\<lambda>d. 0x660 + (d - 0x30)) ds" for ds
    by (induction ds) (simp_all add: digit_to_numeral)
  with decimal_digits [of n] show ?thesis
    by (simp add: numberToArabicIndic_def numberToString_safe [OF assms])
qed

lemma encoded_numerals:
  assumes "n < 2 ^ 53"
  shows "list_all isNumeral (numberToArabicIndic (Finite (int n)))"
    and "numberToArabicIndic (Finite (int n)) \<noteq> []"
    and "numeralValue (numberToArabicIndic (Finite (int n))) = n"
proof -
  let ?m = "map (\<lambda>d. 0x660 + (d - 0x30)) (decimal n)"
  have enc: "numberToArabicIndic (Finite (int n)) = ?m"
    by (rule numberToArabicIndic_safe [OF assms])
  have ascii: "list_all asciiDigit (decimal n)" "decimal n \<noteq> []"
    using decimal_digits [of n] by simp_all
  have "asciiDigit d \<Longrightarrow> isNumeral (0x660 + (d - 0x30))" for d
    unfolding asciiDigit_def isNumeral_def by arith
  with ascii(1) show "list_all isNumeral (numberToArabicIndic (Finite (int n)))"
    by (simp add: enc list_all_iff)
  from ascii(2) show "numberToArabicIndic (Finite (int n)) \<noteq> []" by (simp add: enc)
  have "list_all asciiDigit ds \<Longrightarrow>
      foldl (\<lambda>v c. 10 * v + numeralDigit c) v (map (\<lambda>d. 0x660 + (d - 0x30)) ds)
        = foldl (\<lambda>v c. 10 * v + (c - 0x30)) v ds" for ds v
    by (induction ds arbitrary: v) (auto simp: asciiDigit_def numeralDigit_def)
  from this [OF ascii(1)] show "numeralValue (numberToArabicIndic (Finite (int n))) = n"
    by (simp add: enc numeralValue_def decimal_value)
qed

lemma decimal_sextillion: "length (decimal 1000000000000000000000) = 22"
  by (simp add: decimal.simps)

lemma rounded:
  "toNumber 10000000000000000000000 = Finite 10000000000000000000000"
  "toNumber 1000000000000000000000 = Finite 1000000000000000000000"
  "toNumber 2000000000000000000000 = Finite 2000000000000000000000"
  by (simp_all add: toNumber_def roundToDouble_def bitLength.simps)

lemma candidates_sextillion: "candidates 1000000000000000000000 22 1 = [1]"
  by (simp add: candidates_def rounded)

lemma shortestDigits_sextillion: "shortestDigits 1000000000000000000000 = (22, 1, 1)"
proof -
  have one: "candidates 1000000000000000000000 22 (Suc 0) = [1]"
    using candidates_sextillion by simp
  have "find (\<lambda>k. candidates 1000000000000000000000 22 k \<noteq> []) [1..<22] = Some 1"
    by (simp add: upt_conv_Cons one)
  then show ?thesis
    by (simp add: shortestDigits_def decimal_sextillion rounded one closest_def)
qed

lemma numberToString_sextillion:
  "numberToString (Finite 1000000000000000000000) = [0x31, 0x65, 0x2B, 0x32, 0x31]"
  by (simp add: numberToString_def positiveToString_def shortestDigits_sextillion decimal.simps)

lemma shortestDigits_written:
  assumes "0 < x" "x < 10 ^ 21" "toNumber (int x) = Finite (int x)"
    "shortestDigits x = (n, k, s)"
  shows "n \<le> 21 \<and> 0 < s \<and> toNumber (int (s * 10 ^ (n - k))) = Finite (int x)"
proof -
  define d where "d = length (decimal x)"
  have d: "d \<le> 21" unfolding d_def using assms(2) by (rule decimal_length) simp
  show ?thesis
  proof (cases "toNumber (int (10 ^ d)) = Finite (int x)")
    case True
    with assms(4) have nks: "n = d + 1" "k = 1" "s = 1"
      by (simp_all add: shortestDigits_def d_def [symmetric])
    have "d \<noteq> 21"
    proof
      assume "d = 21"
      with True have "toNumber 1000000000000000000000 = Finite (int x)" by simp
      then have "x = 1000000000000000000000" by (simp add: rounded)
      with assms(2) show False by simp
    qed
    with d True nks show ?thesis by simp
  next
    case False
    then have sd: "shortestDigits x =
        (case find (\<lambda>k. candidates x d k \<noteq> []) [1..<d] of
           Some k \<Rightarrow> (d, k, closest x d k (candidates x d k))
         | None \<Rightarrow> (d, d, x))"
      by (simp add: shortestDigits_def d_def [symmetric] Let_def)
    show ?thesis
    proof (cases "find (\<lambda>k. candidates x d k \<noteq> []) [1..<d]")
      case None
      with sd assms(4) have "n = d" "k = d" "s = x" by simp_all
      with d assms(1,3) show ?thesis by simp
    next
      case (Some k')
      then have "candidates x d k' \<noteq> []" by (auto simp: find_Some_iff)
      from closest_candidate [OF this]
      have "closest x d k' (candidates x d k') \<in> set (candidates x d k')" .
      moreover from sd Some assms(4)
      have nks: "n = d" "k = k'" "s = closest x d k' (candidates x d k')" by simp_all
      ultimately have in_c: "s \<in> set (candidates x d k)" by simp
      then have "toNumber (int (s * 10 ^ (d - k))) = Finite (int x)" "10 ^ (k - 1) \<le> s"
        by (simp_all add: candidates_def del: filter.simps)
      moreover from this(2) have "0 < s" by (cases "s = 0") simp_all
      ultimately show ?thesis using d nks by simp
    qed
  qed
qed

lemma numberToString_written:
  assumes "x < 10 ^ 21" "toNumber (int x) = Finite (int x)"
  shows "\<exists>y. numberToString (Finite (int x)) = decimal y \<and> toNumber (int y) = Finite (int x)"
proof (cases "x = 0")
  case True
  have "toNumber 0 = Finite 0" by (simp add: toNumber_def roundToDouble_def)
  then show ?thesis
    using True by (intro exI [of _ 0]) (simp add: numberToString_def decimal_small)
next
  case False
  then have pos: "0 < x" by simp
  obtain n k s where sd: "shortestDigits x = (n, k, s)" by (cases "shortestDigits x")
  from shortestDigits_written [OF pos assms sd]
  have n: "n \<le> 21" and s: "0 < s" and r: "toNumber (int (s * 10 ^ (n - k))) = Finite (int x)"
    by blast+
  from sd n have "positiveToString x = decimal s @ replicate (n - k) 0x30"
    by (simp add: positiveToString_def)
  also have "\<dots> = decimal (s * 10 ^ (n - k))"
    using s by (simp add: decimal_shift)
  finally have "numberToString (Finite (int x)) = decimal (s * 10 ^ (n - k))"
    using pos by (simp add: numberToString_def)
  with r show ?thesis by blast
qed

lemma encoded_decimal:
  assumes "numberToString num = decimal y"
  shows "list_all isNumeral (numberToArabicIndic num)"
    and "numberToArabicIndic num \<noteq> []"
    and "numeralValue (numberToArabicIndic num) = y"
proof -
  let ?m = "map (\<lambda>d. 0x660 + (d - 0x30)) (decimal y)"
  have ascii: "list_all asciiDigit (decimal y)" "decimal y \<noteq> []"
    using decimal_digits [of y] by simp_all
  have "list_all asciiDigit ds \<Longrightarrow>
      concat (map (\<lambda>d. case digitsAt (parseInt [d]) of Some g \<Rightarrow> g | None \<Rightarrow> []) ds)
        = map (\<lambda>d. 0x660 + (d - 0x30)) ds" for ds
    by (induction ds) (simp_all add: digit_to_numeral)
  from this [OF ascii(1)] have enc: "numberToArabicIndic num = ?m"
    by (simp add: numberToArabicIndic_def assms)
  have "asciiDigit d \<Longrightarrow> isNumeral (0x660 + (d - 0x30))" for d
    unfolding asciiDigit_def isNumeral_def by arith
  with ascii(1) show "list_all isNumeral (numberToArabicIndic num)"
    by (simp add: enc list_all_iff)
  from ascii(2) show "numberToArabicIndic num \<noteq> []" by (simp add: enc)
  have "list_all asciiDigit ds \<Longrightarrow>
      foldl (\<lambda>v c. 10 * v + numeralDigit c) v (map (\<lambda>d. 0x660 + (d - 0x30)) ds)
        = foldl (\<lambda>v c. 10 * v + (c - 0x30)) v ds" for ds v
    by (induction ds arbitrary: v) (auto simp: asciiDigit_def numeralDigit_def)
  from this [OF ascii(1)] show "numeralValue (numberToArabicIndic num) = y"
    by (simp add: enc numeralValue_def decimal_value)
qed

text \<open>
  Claim C9 says that decoding the display string of \<open>n\<close> gives \<open>n\<close> back for every
  non-negative integer \<open>n\<close>. From \<open>10^21\<close> on \<open>String\<close> writes a Number with an
  exponent: \<open>10^21\<close> is written \<open>"1e+21"\<close>, the characters \<open>e\<close> and \<open>+\<close> have no entry in
  \<open>digits\<close> and are left out by \<open>join\<close>, and what is left decodes to 121.
\<close>

theorem numeral_round_trip_counterexample:
  "numberToString (Finite 1000000000000000000000) = [0x31, 0x65, 0x2B, 0x32, 0x31] \<and>
   numberToArabicIndic (Finite 1000000000000000000000) = [0x661, 0x662, 0x661] \<and>
   arabicIndicToNumber (numberToArabicIndic (Finite 1000000000000000000000)) = Finite 121"
  by (simp add: numberToString_sextillion numberToArabicIndic_def parseInt_def isWhiteSpace_def
      digitValue_def mathInt_def toNumber_def roundToDouble_def digitsAt_def digits_def
      arabicIndicToNumber_def arabicIndicDigits_def)


text \<open>
  Claim C9, amended: for every non-negative integer \<open>n\<close> below \<open>10^21\<close> that is the value of
  a Number (every integer up to \<open>2^53\<close>, and above it the integers that a double holds),
  decoding the display string that \<open>numberToArabicIndic\<close> produces for \<open>n\<close> returns \<open>n\<close>.
\<close>

theorem numeral_round_trip:
  assumes "n < 10 ^ 21" "toNumber (int n) = Finite (int n)"
  shows "arabicIndicToNumber (numberToArabicIndic (Finite (int n))) = Finite (int n)"
proof -
  from numberToString_written [OF assms] obtain y
    where y: "numberToString (Finite (int n)) = decimal y" "toNumber (int y) = Finite (int n)"
    by blast
  note m = encoded_decimal [OF y(1)]
  from arabicIndicToNumber_numerals [OF m(2,1)] show ?thesis
    by (simp add: m(3) y(2))
qed

lemma rounded_witness:
  "toNumber 9007199254740994 = Finite 9007199254740994"
  "toNumber 12345678901234567890 = Finite 12345678901234567168"
  "toNumber 12345678901234567168 = Finite 12345678901234567168"
  by (simp_all add: toNumber_def roundToDouble_def bitLength.simps)

theorem numeral_round_trip_witness:
  "(286::nat) < 10 ^ 21 \<and> toNumber (int 286) = Finite (int 286) \<and>
   arabicIndicToNumber (numberToArabicIndic (Finite 286)) = Finite 286 \<and>
   (12345678901234567168::nat) < 10 ^ 21 \<and>
   toNumber (int 12345678901234567168) = Finite (int 12345678901234567168) \<and>
   arabicIndicToNumber (numberToArabicIndic (Finite 12345678901234567168))
     = Finite 12345678901234567168"
  using numeral_round_trip [of 286] numeral_round_trip [of 12345678901234567168]
  by (simp add: rounded_witness toNumber_exact [of 286, simplified])

subsection \<open>Segmenting a reconstruction\<close>

lemma dropWhile_last: "dropWhile P xs \<noteq> [] \<Longrightarrow> last (dropWhile P xs) = last xs"
  by (induction xs) (auto split: if_splits)

lemma trimmed_trim:
  assumes "trim x \<noteq> []"
  shows "trimmed (trim x)"
proof -
  define y where "y = dropWhile isWhiteSpace x"
  define z where "z = dropWhile isWhiteSpace (rev y)"
  have t: "trim x = rev z" by (simp add: trim_def y_def z_def)
  with assms have z: "z \<noteq> []" by simp
  then have y: "y \<noteq> []" by (auto simp: z_def)
  from z have "\<not> isWhiteSpace (hd z)" unfolding z_def by (rule hd_dropWhile)
  with z have l: "\<not> isWhiteSpace (last (rev z))" by (simp add: last_rev)
  from z have "last z = last (rev y)" unfolding z_def by (rule dropWhile_last)
  also have "\<dots> = hd y" using y by (simp add: last_rev)
  finally have "hd (rev z) = hd y" using z by (simp add: hd_rev)
  moreover from y have "\<not> isWhiteSpace (hd y)" unfolding y_def by (rule hd_dropWhile)
  ultimately show ?thesis using z l by (simp add: trimmed_def t)
qed

lemma trim_trimmed:
  assumes "trimmed t"
  shows "trim t = t" and "trim (t @ [0x20]) = t"
proof -
  from assms obtain a as where t: "t = a # as" and a: "\<not> isWhiteSpace a"
    by (cases t) (auto simp: trimmed_def)
  from assms have "rev t \<noteq> []" "\<not> isWhiteSpace (hd (rev t))"
    by (simp_all add: trimmed_def hd_rev)
  then have r: "dropWhile isWhiteSpace (rev t) = rev t"
    by (cases "rev t") auto
  have d: "dropWhile isWhiteSpace t = t" "dropWhile isWhiteSpace (t @ [0x20]) = t @ [0x20]"
    using a by (simp_all add: t)
  show "trim t = t" unfolding trim_def d r by simp
  have "dropWhile isWhiteSpace (rev (t @ [0x20])) = rev t"
    using r by (simp add: isWhiteSpace_def)
  then show "trim (t @ [0x20]) = t" unfolding trim_def d by simp
qed

lemma trimmedTexts_step: "trimmedTexts st \<Longrightarrow> trimmedTexts (step conv st part)"
  by (cases conv) (auto simp: trimmedTexts_def step_def Let_def trimmed_trim)

lemma trimmedTexts_foldl: "trimmedTexts st \<Longrightarrow> trimmedTexts (foldl (step conv) st parts)"
  by (induction parts arbitrary: st) (simp_all add: trimmedTexts_step)

lemma texts_trimmed:
  assumes "parseVersesFromContent conv content = Some units"
  shows "list_all (\<lambda>v. trimmed (text' v)) units"
proof -
  from assms obtain parts where "units = finish (foldl (step conv) initial parts)"
    by (auto simp: parseVersesFromContent_def split: bind_splits)
  moreover have "trimmedTexts (foldl (step conv) initial parts)"
    by (rule trimmedTexts_foldl) (simp add: trimmedTexts_def initial_def)
  ultimately show ?thesis
    by (auto simp: finish_def Let_def trimmedTexts_def trimmed_trim)
qed

lemma split_marked:
  assumes "list_all (\<lambda>c. \<not> isNumeral c) t" "list_all isNumeral m" "m \<noteq> []"
    "tail = [] \<or> isWhiteSpace (hd tail)"
  shows "splitLoop conv [] (t @ [0x20] @ m @ tail) =
           Option.bind (splitLoop conv [] (tl tail))
             (\<lambda>A. Some ((t @ (case conv of MID_STREAM \<Rightarrow> [] | END_OF_UNIT \<Rightarrow> [0x20])) # m # A))"
proof -
  have sp: "isWhiteSpace 0x20" "\<not> isNumeral 0x20"
    by (simp_all add: isWhiteSpace_def isNumeral_def)
  have m: "numerals (m @ tail) = Some (m, tl tail)"
    by (rule numerals_marker [OF assms(2,3,4)])
  show ?thesis
  proof (cases conv)
    case MID_STREAM
    have "splitLoop conv [] (t @ [0x20] @ m @ tail) = splitLoop conv t (0x20 # m @ tail)"
      using splitLoop_text [OF assms(1), of conv "0x20 # m @ tail" "[]"] sp by simp
    also have "exec conv (0x20 # m @ tail) = Some (m, tl tail)"
      using m sp by (simp add: exec_def MID_STREAM)
    then have "splitLoop conv t (0x20 # m @ tail) =
        Option.bind (splitLoop conv [] (tl tail)) (\<lambda>A. Some (t # m # A))"
      by (rule splitLoop_match)
    finally show ?thesis by (simp add: MID_STREAM)
  next
    case END_OF_UNIT
    have "list_all (\<lambda>c. \<not> isNumeral c) (t @ [0x20])"
      using assms(1) sp by simp
    from splitLoop_text [OF this, of conv "m @ tail" "[]"]
    have "splitLoop conv [] (t @ [0x20] @ m @ tail) = splitLoop conv (t @ [0x20]) (m @ tail)"
      by (simp add: END_OF_UNIT)
    also have "exec conv (m @ tail) = Some (m, tl tail)"
      using m by (simp add: exec_def END_OF_UNIT)
    then have "splitLoop conv (t @ [0x20]) (m @ tail) =
        Option.bind (splitLoop conv [] (tl tail)) (\<lambda>A. Some ((t @ [0x20]) # m # A))"
      by (rule splitLoop_match)
    finally show ?thesis by (simp add: END_OF_UNIT)
  qed
qed

lemma split_reconstruct:
  "plainUnits k units \<Longrightarrow> units \<noteq> [] \<Longrightarrow>
     splitLoop conv [] (reconstruct units) = Some (reconstructedParts conv units)"
proof (induction units arbitrary: k rule: reconstruct.induct)
  case 1
  then show ?case by simp
next
  case (2 v)
  then have "number v < 2 ^ 53" and plain: "list_all (\<lambda>c. \<not> isNumeral c) (text' v)"
    by simp_all
  note m = encoded_numerals [OF this(1)]
  from split_marked [OF plain m(1,2), of "[]" conv]
  show ?case by (simp add: marked_def reconstructedParts_def splitLoop_Nil)
next
  case (3 v w vs)
  then have "number v < 2 ^ 53" and plain: "list_all (\<lambda>c. \<not> isNumeral c) (text' v)"
    and rest: "plainUnits (Suc k) (w # vs)"
    by simp_all
  note m = encoded_numerals [OF this(1)]
  have "isWhiteSpace 0x20" by (simp add: isWhiteSpace_def)
  with split_marked [OF plain m(1,2), of "0x20 # reconstruct (w # vs)" conv]
    "3.IH" [OF rest]
  show ?case by (simp add: marked_def reconstructedParts_def)
qed

lemma plain_part:
  assumes "trimmed t" "list_all (\<lambda>c. \<not> isNumeral c) t"
  shows "step conv \<lparr>verses = vs, currentText = [], expectedVerseNum = k\<rparr>
           (t @ (case conv of MID_STREAM \<Rightarrow> [] | END_OF_UNIT \<Rightarrow> [0x20]))
         = \<lparr>verses = vs,
            currentText = t @ (case conv of MID_STREAM \<Rightarrow> [] | END_OF_UNIT \<Rightarrow> [0x20]),
            expectedVerseNum = k\<rparr>"
proof -
  have "\<not> isNumeral 0x20" by (simp add: isNumeral_def)
  with assms(2) have "list_all (\<lambda>c. \<not> isNumeral c)
      (t @ (case conv of MID_STREAM \<Rightarrow> [] | END_OF_UNIT \<Rightarrow> [0x20]))"
    by (cases conv) simp_all
  from not_isVerseNum [OF this] show ?thesis
    by (cases conv) (simp_all add: step_def)
qed

lemma marker_part:
  assumes "trimmed (text' v)" "number v < 2 ^ 53"
  shows "step conv
           \<lparr>verses = vs,
            currentText = text' v @ (case conv of MID_STREAM \<Rightarrow> [] | END_OF_UNIT \<Rightarrow> [0x20]),
            expectedVerseNum = number v\<rparr>
           (numberToArabicIndic (Finite (int (number v))))
         = \<lparr>verses = vs @ [v], currentText = [], expectedVerseNum = Suc (number v)\<rparr>"
proof -
  note m = encoded_numerals [OF assms(2)]
  from m(1,2) have "isVerseNum (numberToArabicIndic (Finite (int (number v))))"
    by (simp add: isVerseNum_def)
  moreover have "arabicIndicToNumber (numberToArabicIndic (Finite (int (number v))))
      = Finite (int (number v))"
    using arabicIndicToNumber_numerals [OF m(2,1)] assms(2) by (simp add: m(3) toNumber_exact)
  moreover have "trim (text' v @ (case conv of MID_STREAM \<Rightarrow> [] | END_OF_UNIT \<Rightarrow> [0x20])) = text' v"
    using trim_trimmed [OF assms(1)] by (cases conv) simp_all
  moreover have "text' v \<noteq> []" using assms(1) by (simp add: trimmed_def)
  ultimately show ?thesis by (simp add: step_def)
qed

lemma fold_reconstruct:
  "plainUnits k units \<Longrightarrow>
     foldl (step conv) \<lparr>verses = vs, currentText = [], expectedVerseNum = k\<rparr>
       (reconstructedParts conv units)
       = \<lparr>verses = vs @ units, currentText = [], expectedVerseNum = k + length units\<rparr>"
proof (induction units arbitrary: k vs)
  case Nil
  show ?case by (cases conv) (simp_all add: reconstructedParts_def step_def isVerseNum_def)
next
  case (Cons v units)
  then have v: "number v = k" "k < 2 ^ 53" "trimmed (text' v)"
    "list_all (\<lambda>c. \<not> isNumeral c) (text' v)" and rest: "plainUnits (Suc k) units"
    by simp_all
  have parts: "reconstructedParts conv (v # units) =
      (text' v @ (case conv of MID_STREAM \<Rightarrow> [] | END_OF_UNIT \<Rightarrow> [0x20])) #
      numberToArabicIndic (Finite (int (number v))) # reconstructedParts conv units"
    by (simp add: reconstructedParts_def)
  show ?case
    unfolding parts foldl_Cons plain_part [OF v(3,4)]
    using marker_part [OF v(3), of conv vs] v(1,2) Cons.IH [OF rest, of "vs @ [v]"]
    by simp
qed

lemma plainUnits_index:
  "(\<forall>i < length units. number (units ! i) = k + i) \<Longrightarrow>
   list_all (\<lambda>v. trimmed (text' v) \<and> list_all (\<lambda>c. \<not> isNumeral c) (text' v)) units \<Longrightarrow>
   k + length units \<le> 2 ^ 53 \<Longrightarrow> plainUnits k units"
proof (induction units arbitrary: k)
  case Nil
  then show ?case by simp
next
  case (Cons v units)
  from Cons.prems(1) have "number v = k" by fastforce
  moreover have "\<forall>i < length units. number (units ! i) = Suc k + i"
  proof (intro allI impI)
    fix i assume "i < length units"
    with Cons.prems(1) have "number ((v # units) ! Suc i) = k + Suc i" by fastforce
    then show "number (units ! i) = Suc k + i" by simp
  qed
  moreover from Cons.prems(3) have "k < 2 ^ 53" "Suc k + length units \<le> 2 ^ 53" by simp_all
  ultimately show ?case using Cons.IH [of "Suc k"] Cons.prems(2) by simp
qed

lemma parse_reconstruct:
  assumes "plainUnits 1 units"
  shows "parseVersesFromContent conv (reconstruct units) = Some units"
proof (cases "units = []")
  case True
  then show ?thesis
    by (cases conv) (simp_all add: segmenter_eval)
next
  case False
  from split_reconstruct [OF assms False]
  have "split conv (reconstruct units) = Some (reconstructedParts conv units)"
    by (simp add: split_def)
  with fold_reconstruct [OF assms, of conv "[]"] show ?thesis
    by (simp add: parseVersesFromContent_def initial_def finish_def trim_def)
qed

lemma small_markers:
  "numberToArabicIndic (Finite 1) = [0x661]"
  "numberToArabicIndic (Finite 2) = [0x662]"
  "numberToArabicIndic (Finite 3) = [0x663]"
  using numberToArabicIndic_safe [of 1] numberToArabicIndic_safe [of 2]
    numberToArabicIndic_safe [of 3]
  by (simp_all add: decimal_small)

text \<open>
  Claim C8 says that segmenting the reconstruction of a unit list gives the same list
  again. It fails for a list with a gap: the mid-stream content \<open>" 1 x"\<close> (1 standing for
  the Arabic-Indic digit) gives the unit \<open>(2, "x")\<close>, whose reconstruction \<open>"x 2"\<close> gives
  \<open>(1, "x 2")\<close>. It also fails where a unit text has a numeral: the end-of-unit content
  \<open>"2  x"\<close> gives \<open>(1, "2 x")\<close>, whose reconstruction \<open>"2 x 1"\<close> gives \<open>(1, "2x")\<close>.
\<close>

theorem segment_reconstruction_counterexample:
  "parseVersesFromContent MID_STREAM [0x20, 0x661, 0x20, 0x78]
     = Some [\<lparr>number = 2, text' = [0x78]\<rparr>] \<and>
   reconstruct [\<lparr>number = 2, text' = [0x78]\<rparr>] = [0x78, 0x20, 0x662] \<and>
   parseVersesFromContent MID_STREAM [0x78, 0x20, 0x662]
     = Some [\<lparr>number = 1, text' = [0x78, 0x20, 0x662]\<rparr>] \<and>
   parseVersesFromContent END_OF_UNIT [0x662, 0x20, 0x20, 0x78]
     = Some [\<lparr>number = 1, text' = [0x662, 0x20, 0x78]\<rparr>] \<and>
   reconstruct [\<lparr>number = 1, text' = [0x662, 0x20, 0x78]\<rparr>] = [0x662, 0x20, 0x78, 0x20, 0x661] \<and>
   parseVersesFromContent END_OF_UNIT [0x662, 0x20, 0x78, 0x20, 0x661]
     = Some [\<lparr>number = 1, text' = [0x662, 0x78]\<rparr>]"
  by (simp add: segmenter_eval marked_def small_markers)


text \<open>
  Claim C8, amended: for every content, in either convention, when the unit list of the
  content has no gap (the unit at index \<open>i\<close> is numbered \<open>i + 1\<close>), no unit text has a
  numeral of the two alphabets, and there are fewer than \<open>2^53\<close> units, segmenting the
  reconstruction of the list (each text followed by a space and its marker, the units
  joined by a space) in the same convention returns the same list.
\<close>

theorem segment_reconstruction:
  "\<exists>units. parseVersesFromContent conv content = Some units \<and>
     ((\<forall>i < length units. number (units ! i) = i + 1) \<and>
      (\<forall>v \<in> set units. list_all (\<lambda>c. \<not> isNumeral c) (text' v)) \<and>
      length units < 2 ^ 53 \<longrightarrow>
      parseVersesFromContent conv (reconstruct units) = Some units)"
proof -
  obtain parts where "split conv content = Some parts"
    using split_returns by blast
  from numbered_result(1) [OF this]
  obtain units where units: "parseVersesFromContent conv content = Some units" by blast
  have "parseVersesFromContent conv (reconstruct units) = Some units"
    if h: "(\<forall>i < length units. number (units ! i) = i + 1) \<and>
      (\<forall>v \<in> set units. list_all (\<lambda>c. \<not> isNumeral c) (text' v)) \<and> length units < 2 ^ 53"
  proof -
    from h texts_trimmed [OF units]
    have "list_all (\<lambda>v. trimmed (text' v) \<and> list_all (\<lambda>c. \<not> isNumeral c) (text' v)) units"
      by (simp add: list_all_iff)
    moreover from h have "\<forall>i < length units. number (units ! i) = 1 + i" by simp
    moreover from h have "1 + length units \<le> 2 ^ 53" by simp
    ultimately have "plainUnits 1 units" by (intro plainUnits_index)
    then show ?thesis by (rule parse_reconstruct)
  qed
  with units show ?thesis by blast
qed

theorem segment_reconstruction_witness:
  "parseVersesFromContent MID_STREAM
     [0x61, 0x20, 0x661, 0x20, 0x62, 0x20, 0x63, 0x20, 0x662, 0x20, 0x64]
     = Some [\<lparr>number = 1, text' = [0x61]\<rparr>, \<lparr>number = 2, text' = [0x62, 0x20, 0x63]\<rparr>,
             \<lparr>number = 3, text' = [0x64]\<rparr>] \<and>
   list_all (\<lambda>v. list_all (\<lambda>c. \<not> isNumeral c) (text' v))
     [\<lparr>number = 1, text' = [0x61]\<rparr>, \<lparr>number = 2, text' = [0x62, 0x20, 0x63]\<rparr>,
      \<lparr>number = 3, text' = [0x64]\<rparr>] \<and>
   reconstruct [\<lparr>number = 1, text' = [0x61]\<rparr>, \<lparr>number = 2, text' = [0x62, 0x20, 0x63]\<rparr>,
      \<lparr>number = 3, text' = [0x64]\<rparr>]
     = [0x61, 0x20, 0x661, 0x20, 0x62, 0x20, 0x63, 0x20, 0x662, 0x20, 0x64, 0x20, 0x663] \<and>
   parseVersesFromContent MID_STREAM
     [0x61, 0x20, 0x661, 0x20, 0x62, 0x20, 0x63, 0x20, 0x662, 0x20, 0x64, 0x20, 0x663]
     = Some [\<lparr>number = 1, text' = [0x61]\<rparr>, \<lparr>number = 2, text' = [0x62, 0x20, 0x63]\<rparr>,
             \<lparr>number = 3, text' = [0x64]\<rparr>]"
proof -
  define units where "units = [\<lparr>number = 1, text' = [0x61]\<rparr>,
      \<lparr>number = 2, text' = [0x62, 0x20, 0x63]\<rparr>, \<lparr>number = 3, text' = [0x64]\<rparr>]"
  have parsed: "parseVersesFromContent MID_STREAM
     [0x61, 0x20, 0x661, 0x20, 0x62, 0x20, 0x63, 0x20, 0x662, 0x20, 0x64] = Some units"
    by (simp add: segmenter_eval units_def)
  have indexed: "\<forall>i < length units. number (units ! i) = i + 1"
    by (auto simp: units_def less_Suc_eq)
  have plain: "\<forall>v \<in> set units. list_all (\<lambda>c. \<not> isNumeral c) (text' v)"
    by (simp add: units_def isNumeral_def)
  have few: "length units < 2 ^ 53" by (simp add: units_def)
  have rebuilt: "reconstruct units
      = [0x61, 0x20, 0x661, 0x20, 0x62, 0x20, 0x63, 0x20, 0x662, 0x20, 0x64, 0x20, 0x663]"
    by (simp add: units_def marked_def small_markers)
  from segment_reconstruction
    [of MID_STREAM "[0x61, 0x20, 0x661, 0x20, 0x62, 0x20, 0x63, 0x20, 0x662, 0x20, 0x64]"]
  have "parseVersesFromContent MID_STREAM (reconstruct units) = Some units"
    using indexed plain few unfolding parsed by blast
  with parsed plain rebuilt show ?thesis
    by (simp add: units_def)
qed

end
